theory Spec2Isabelle
  imports
    Main
    "HOL-Library.AList"
    "HOL-Library.Extended_Nat"
    "HOL-Library.Char_ord"
    "HOL-Library.List_Lexorder"
    "HOL-Library.Product_Lexorder"
begin

section \<open>The crossword solver of generate.py\<close>

text \<open>
  The development embeds the class \<open>CrosswordCreator\<close> of \<open>generate.py\<close>: node
  consistency, \<open>revise\<close>, \<open>ac3\<close>, the consistency check of an assignment, the two
  ordering heuristics and the backtracking search.

  Conventions of the embedding.
  \<^item> A Python \<open>set\<close> is a list without duplicates; the order of the list is the order
    in which the interpreter iterates over the set. Removing elements keeps the order of
    the others. Theorems that quantify over the crossword or over the domain store
    therefore hold for every iteration order.
  \<^item> A Python \<open>dict\<close> that is only indexed is a map; a \<open>dict\<close> that is iterated is
    an association list in insertion order.
  \<^item> An exception is a value \<open>Inl e\<close> of the result; nothing in the source catches
    an exception, so the state at the moment of the raise is not kept.
\<close>

subsection \<open>Data model\<close>

datatype direction = ACROSS | DOWN

text \<open>The class \<open>Variable\<close>: two variables are equal iff their four attributes are.\<close>

record variable =
  var_i :: nat
  var_j :: nat
  var_direction :: direction
  var_length :: nat

type_synonym word = string

type_synonym arc = "variable \<times> variable"

text \<open>
  The puzzle model the solver reads. \<open>variables\<close> and \<open>words\<close> are sets,
  \<open>overlaps\<close> is the \<open>dict\<close> from pairs of variables to \<open>None\<close> or a pair of
  indices; the class that builds it is not part of \<open>generate.py\<close>, so the model is a
  parameter of every function below.
\<close>

record crossword =
  variables :: "variable list"
  words :: "word list"
  overlaps :: "(arc \<times> (nat \<times> nat) option) list"

text \<open>\<open>self.domains\<close>: the dict from variables to sets of words.\<close>

type_synonym domains = "variable \<rightharpoonup> word list"

text \<open>An assignment: the dict from variables to words, in insertion order.\<close>

type_synonym assignment = "(variable \<times> word) list"

datatype error = KeyError | IndexError | TypeError | RecursionError

subsection \<open>Reading the tables\<close>

text \<open>\<open>self.domains[x]\<close> raises \<open>KeyError\<close> when \<open>x\<close> is not a key.\<close>

definition dom_get :: "domains \<Rightarrow> variable \<Rightarrow> error + word list" where
  "dom_get st x = (case st x of None \<Rightarrow> Inl KeyError | Some d \<Rightarrow> Inr d)"

text \<open>\<open>self.crossword.overlaps[x, y]\<close>.\<close>

definition lookup_overlap :: "crossword \<Rightarrow> variable \<Rightarrow> variable \<Rightarrow> error + (nat \<times> nat) option" where
  "lookup_overlap cw x y =
     (case map_of (overlaps cw) (x, y) of None \<Rightarrow> Inl KeyError | Some ov \<Rightarrow> Inr ov)"

text \<open>\<open>w[k]\<close> on a string, for an index that is never negative.\<close>

definition char_at :: "word \<Rightarrow> nat \<Rightarrow> error + char" where
  "char_at w k = (if k < length w then Inr (w ! k) else Inl IndexError)"

text \<open>
  Modelled from the spec: \<open>Crossword.neighbors\<close> is defined in the module
  \<open>crossword\<close>, which is not among the sources. The spec (section 3) gives it as the set
  of all other variables with a defined overlap with \<open>v\<close>, derived from the overlap
  table. The set is iterated in the order of \<open>variables\<close>.
\<close>

definition neighbors :: "crossword \<Rightarrow> variable \<Rightarrow> variable list" where
  "neighbors cw v =
     filter (\<lambda>u. u \<noteq> v \<and> (case map_of (overlaps cw) (u, v) of Some (Some ov) \<Rightarrow> True | _ \<Rightarrow> False))
       (variables cw)"

subsection \<open>Creation and node consistency\<close>

text \<open>\<open>__init__\<close>: every variable starts with a copy of the whole vocabulary.\<close>

definition init_domains :: "crossword \<Rightarrow> domains" where
  "init_domains cw = (\<lambda>v. if v \<in> set (variables cw) then Some (words cw) else None)"

definition enforce_node_consistency :: "domains \<Rightarrow> domains" where
  "enforce_node_consistency st =
     (\<lambda>v. map_option (filter (\<lambda>w. length w = var_length v)) (st v))"

subsection \<open>Arc consistency\<close>

text \<open>
  The generator \<open>any(i[m] == y_element[n] for y_element in self.domains[y])\<close>:
  it stops at the first equal pair, and an index out of range raises.
\<close>

fun any_match :: "word \<Rightarrow> nat \<Rightarrow> nat \<Rightarrow> word list \<Rightarrow> error + bool" where
  "any_match w m n [] = Inr False"
| "any_match w m n (y # ys) =
     (case char_at w m of
        Inl e \<Rightarrow> Inl e
      | Inr a \<Rightarrow>
         (case char_at y n of
            Inl e \<Rightarrow> Inl e
          | Inr b \<Rightarrow> if a = b then Inr True else any_match w m n ys))"

text \<open>The loop of \<open>revise\<close> over \<open>self.domains[x]\<close>, with \<open>remove\<close> and \<open>revised\<close>.\<close>

fun revise_loop ::
  "nat \<Rightarrow> nat \<Rightarrow> domains \<Rightarrow> variable \<Rightarrow> word list \<Rightarrow> word list \<times> bool \<Rightarrow> error + (word list \<times> bool)" where
  "revise_loop m n st y [] acc = Inr acc"
| "revise_loop m n st y (w # ws) (remove, revised) =
     (case dom_get st y of
        Inl e \<Rightarrow> Inl e
      | Inr ys \<Rightarrow>
         (case any_match w m n ys of
            Inl e \<Rightarrow> Inl e
          | Inr found \<Rightarrow>
             if \<not> found then revise_loop m n st y ws (remove @ [w], True)
             else revise_loop m n st y ws (remove, revised)))"

definition revise :: "crossword \<Rightarrow> variable \<Rightarrow> variable \<Rightarrow> domains \<Rightarrow> error + (bool \<times> domains)" where
  "revise cw x y st =
     (case lookup_overlap cw x y of
        Inl e \<Rightarrow> Inl e
      | Inr ov \<Rightarrow>
         (case (case ov of
                  None \<Rightarrow> Inr ([], False)
                | Some (m, n) \<Rightarrow>
                   (case dom_get st x of
                      Inl e \<Rightarrow> Inl e
                    | Inr xs \<Rightarrow> revise_loop m n st y xs ([], False))) of
            Inl e \<Rightarrow> Inl e
          | Inr (remove, revised) \<Rightarrow>
             (case dom_get st x of
                Inl e \<Rightarrow> Inl e
              | Inr xs \<Rightarrow> Inr (revised, st(x \<mapsto> filter (\<lambda>w. w \<notin> set remove) xs)))))"

text \<open>The number of words a variable still has; a missing key counts as none.\<close>

definition dom_size :: "domains \<Rightarrow> variable \<Rightarrow> nat" where
  "dom_size st v = (case st v of None \<Rightarrow> 0 | Some d \<Rightarrow> length d)"

lemma revise_loop_acc:
  "revise_loop m n st y ws (remove, revised) = Inr (remove', revised') \<Longrightarrow>
     (revised \<longleftrightarrow> remove \<noteq> []) \<Longrightarrow>
     (revised' \<longleftrightarrow> remove' \<noteq> []) \<and> set remove' \<subseteq> set remove \<union> set ws"
proof (induction ws arbitrary: remove revised)
  case Nil
  then show ?case by auto
next
  case (Cons w ws)
  from Cons.prems(1) obtain ys found where
    ys: "dom_get st y = Inr ys" and found: "any_match w m n ys = Inr found"
    by (auto split: sum.splits)
  show ?case
  proof (cases found)
    case True
    with Cons.prems ys found
    have "revise_loop m n st y ws (remove, revised) = Inr (remove', revised')" by simp
    from Cons.IH [OF this Cons.prems(2)] show ?thesis by auto
  next
    case False
    with Cons.prems ys found
    have "revise_loop m n st y ws (remove @ [w], True) = Inr (remove', revised')" by simp
    from Cons.IH [OF this] show ?thesis by auto
  qed
qed

text \<open>What a call of \<open>revise\<close> that returns has done to the store.\<close>

lemma revise_result:
  assumes "revise cw x y st = Inr (revised, st')"
  shows "\<exists>xs remove. st x = Some xs \<and> st' = st(x \<mapsto> filter (\<lambda>w. w \<notin> set remove) xs) \<and>
           (revised \<longleftrightarrow> remove \<noteq> []) \<and> set remove \<subseteq> set xs"
proof -
  from assms obtain ov where ov: "lookup_overlap cw x y = Inr ov"
    by (auto simp: revise_def split: sum.splits)
  from assms ov obtain xs where xs: "st x = Some xs"
    by (auto simp: revise_def dom_get_def split: sum.splits option.splits prod.splits)
  show ?thesis
  proof (cases ov)
    case None
    with assms ov xs have "st' = st(x \<mapsto> filter (\<lambda>w. w \<notin> set []) xs)" "\<not> revised"
      by (auto simp: revise_def dom_get_def)
    with xs show ?thesis by (intro exI [of _ xs] exI [of _ "[]"]) simp
  next
    case (Some mn)
    obtain m n where mn: "mn = (m, n)" by (cases mn)
    from assms ov xs Some mn obtain remove where
      loop: "revise_loop m n st y xs ([], False) = Inr (remove, revised)"
      and st': "st' = st(x \<mapsto> filter (\<lambda>w. w \<notin> set remove) xs)"
      by (auto simp: revise_def dom_get_def split: sum.splits prod.splits)
    from revise_loop_acc [OF loop] have "revised \<longleftrightarrow> remove \<noteq> []" "set remove \<subseteq> set xs"
      by auto
    with xs st' show ?thesis by blast
  qed
qed

lemma revise_dom_size_le:
  assumes "revise cw x y st = Inr (revised, st')"
  shows "dom_size st' v \<le> dom_size st v"
proof -
  from revise_result [OF assms] obtain xs remove where
    "st x = Some xs" "st' = st(x \<mapsto> filter (\<lambda>w. w \<notin> set remove) xs)"
    by blast
  then show ?thesis by (simp add: dom_size_def)
qed

lemma revise_shrinks:
  assumes "revise cw x y st = Inr (True, st')"
  shows "dom_size st' x < dom_size st x"
proof -
  from revise_result [OF assms] obtain xs remove where
    xs: "st x = Some xs"
    and st': "st' = st(x \<mapsto> filter (\<lambda>w. w \<notin> set remove) xs)"
    and rem: "remove \<noteq> []" "set remove \<subseteq> set xs"
    by blast
  then obtain w where "w \<in> set xs" "w \<in> set remove" by (cases remove) auto
  then have "length (filter (\<lambda>w. w \<notin> set remove) xs) < length xs"
    by (intro length_filter_less [of w]) auto
  with xs st' show ?thesis by (simp add: dom_size_def)
qed

lemma revise_unrevised:
  assumes "revise cw x y st = Inr (False, st')"
  shows "st' = st"
proof -
  from revise_result [OF assms] obtain xs where
    "st x = Some xs" "st' = st(x \<mapsto> filter (\<lambda>w. w \<notin> set []) xs)"
    by blast
  then show ?thesis by (auto simp: fun_upd_idem)
qed

text \<open>
  The worklist loop of \<open>ac3\<close>. The \<open>for\<close> loop runs over a list that its body
  extends, so it visits the appended arcs too. \<open>dm\<close> is the truth value of the
  parameter \<open>dom\<close>.
\<close>

definition requeue :: "crossword \<Rightarrow> variable \<Rightarrow> variable \<Rightarrow> arc list" where
  "requeue cw x y = map (\<lambda>z. (z, x)) (filter (\<lambda>z. z \<noteq> y) (neighbors cw x))"

definition ac3_weight :: "crossword \<Rightarrow> arc list \<Rightarrow> domains \<Rightarrow> nat" where
  "ac3_weight cw arcs st = (\<Sum>v \<in> set (variables cw) \<union> fst ` set arcs. dom_size st v)"

lemma ac3_weight_requeue:
  assumes "revise cw x y st = Inr (True, st')"
  shows "ac3_weight cw (arcs @ requeue cw x y) st' < ac3_weight cw ((x, y) # arcs) st"
proof -
  let ?S' = "set (variables cw) \<union> fst ` set (arcs @ requeue cw x y)"
  let ?S = "set (variables cw) \<union> fst ` set ((x, y) # arcs)"
  have sub: "?S' \<subseteq> ?S" by (auto simp: requeue_def neighbors_def)
  have "sum (dom_size st') ?S' \<le> sum (dom_size st') ?S"
    by (rule sum_mono2) (use sub in auto)
  also have "\<dots> < sum (dom_size st) ?S"
  proof (rule sum_strict_mono_ex1)
    show "finite ?S" by simp
    show "\<forall>v\<in>?S. dom_size st' v \<le> dom_size st v"
      using revise_dom_size_le [OF assms] by blast
    show "\<exists>v\<in>?S. dom_size st' v < dom_size st v"
      using revise_shrinks [OF assms] by auto
  qed
  finally show ?thesis by (simp add: ac3_weight_def)
qed

lemma ac3_weight_tail:
  assumes "revise cw x y st = Inr (revised, st')"
  shows "ac3_weight cw arcs st' \<le> ac3_weight cw ((x, y) # arcs) st"
proof -
  let ?S' = "set (variables cw) \<union> fst ` set arcs"
  let ?S = "set (variables cw) \<union> fst ` set ((x, y) # arcs)"
  have "sum (dom_size st') ?S' \<le> sum (dom_size st') ?S"
    by (rule sum_mono2) auto
  also have "\<dots> \<le> sum (dom_size st) ?S"
    by (rule sum_mono) (rule revise_dom_size_le [OF assms])
  finally show ?thesis by (simp add: ac3_weight_def)
qed

function ac3_loop :: "crossword \<Rightarrow> bool \<Rightarrow> arc list \<Rightarrow> domains \<Rightarrow> error + (bool \<times> domains)" where
  "ac3_loop cw dm [] st = Inr (True, st)"
| "ac3_loop cw dm ((x, y) # arcs) st =
     (case revise cw x y st of
        Inl e \<Rightarrow> Inl e
      | Inr (revised, st') \<Rightarrow>
         if revised then
           (case dom_get st' x of
              Inl e \<Rightarrow> Inl e
            | Inr d \<Rightarrow>
               if length d = 0 then Inr (False, st')
               else if \<not> dm then ac3_loop cw dm (arcs @ requeue cw x y) st'
               else ac3_loop cw dm arcs st')
         else ac3_loop cw dm arcs st')"
  by pat_completeness auto
termination
proof (relation "inv_image (less_than <*lex*> less_than)
    (\<lambda>(cw, dm, arcs, st). (ac3_weight cw arcs st, length arcs))", goal_cases)
  case 1
  show ?case by (intro wf_inv_image wf_lex_prod wf_less_than)
next
  case (2 cw dm x y arcs st r revised st' d)
  then have "revise cw x y st = Inr (True, st')" by simp
  from ac3_weight_requeue [OF this] show ?case by simp
next
  case (3 cw dm x y arcs st r revised st' d)
  then have "revise cw x y st = Inr (revised, st')" by simp
  from ac3_weight_tail [OF this, of arcs] show ?case by auto
next
  case (4 cw dm x y arcs st r revised st')
  then have "revise cw x y st = Inr (revised, st')" by simp
  from ac3_weight_tail [OF this, of arcs] show ?case by auto
qed

text \<open>
  The same loop written without any knowledge of its termination: \<open>None\<close> stands for a
  run that never ends.
\<close>

partial_function (option) ac3_while ::
  "crossword \<Rightarrow> bool \<Rightarrow> arc list \<Rightarrow> domains \<Rightarrow> (error + (bool \<times> domains)) option" where
  "ac3_while cw dm arcs st =
     (case arcs of
        [] \<Rightarrow> Some (Inr (True, st))
      | (x, y) # rest \<Rightarrow>
         (case revise cw x y st of
            Inl e \<Rightarrow> Some (Inl e)
          | Inr (revised, st') \<Rightarrow>
             if revised then
               (case dom_get st' x of
                  Inl e \<Rightarrow> Some (Inl e)
                | Inr d \<Rightarrow>
                   if length d = 0 then Some (Inr (False, st'))
                   else if \<not> dm then ac3_while cw dm (rest @ requeue cw x y) st'
                   else ac3_while cw dm rest st')
             else ac3_while cw dm rest st'))"

text \<open>All arcs of the problem: the keys of \<open>overlaps\<close> whose value is not \<open>None\<close>.\<close>

definition all_arcs :: "crossword \<Rightarrow> arc list" where
  "all_arcs cw = map fst (filter (\<lambda>(k, ov). ov \<noteq> None) (overlaps cw))"

definition ac3 :: "crossword \<Rightarrow> arc list option \<Rightarrow> bool \<Rightarrow> domains \<Rightarrow> error + (bool \<times> domains)" where
  "ac3 cw arcs dm st =
     ac3_loop cw dm (case arcs of None \<Rightarrow> all_arcs cw | Some a \<Rightarrow> a) st"

definition ac3_run ::
  "crossword \<Rightarrow> arc list option \<Rightarrow> bool \<Rightarrow> domains \<Rightarrow> (error + (bool \<times> domains)) option" where
  "ac3_run cw arcs dm st =
     ac3_while cw dm (case arcs of None \<Rightarrow> all_arcs cw | Some a \<Rightarrow> a) st"

subsection \<open>Assignments\<close>

text \<open>\<open>i in assignment and assignment[i]\<close>: the empty string is falsy.\<close>

definition assigned :: "assignment \<Rightarrow> variable \<Rightarrow> bool" where
  "assigned asg i = (case map_of asg i of None \<Rightarrow> False | Some w \<Rightarrow> w \<noteq> [])"

definition assignment_complete :: "crossword \<Rightarrow> assignment \<Rightarrow> bool" where
  "assignment_complete cw asg =
     (if length asg = length (variables cw) then list_all (\<lambda>(k, w). w \<noteq> []) asg else False)"

text \<open>
  The inner loop of \<open>consistent\<close> over the neighbors \<open>n\<close> of \<open>i\<close>; \<open>wi\<close> is
  \<open>assignment[i]\<close>. \<open>Inr False\<close> is the \<open>return False\<close> of the source. Subscripting the
  value \<open>None\<close> of the overlap table raises \<open>TypeError\<close>.
\<close>

fun check_neighbors ::
  "crossword \<Rightarrow> assignment \<Rightarrow> variable \<Rightarrow> word \<Rightarrow> variable list \<Rightarrow> error + bool" where
  "check_neighbors cw asg i wi [] = Inr True"
| "check_neighbors cw asg i wi (n # ns) =
     (case map_of asg n of
        None \<Rightarrow> check_neighbors cw asg i wi ns
      | Some wn \<Rightarrow>
         if wn \<noteq> [] then
           (case lookup_overlap cw n i of
              Inl e \<Rightarrow> Inl e
            | Inr None \<Rightarrow> Inl TypeError
            | Inr (Some (x, y)) \<Rightarrow>
               (case char_at wn x of
                  Inl e \<Rightarrow> Inl e
                | Inr a \<Rightarrow>
                   (case char_at wi y of
                      Inl e \<Rightarrow> Inl e
                    | Inr b \<Rightarrow> if a \<noteq> b then Inr False else check_neighbors cw asg i wi ns)))
         else check_neighbors cw asg i wi ns)"

text \<open>The outer loop of \<open>consistent\<close> over the entries of the assignment.\<close>

fun consistent_loop ::
  "crossword \<Rightarrow> assignment \<Rightarrow> (variable \<times> word) list \<Rightarrow> word list \<Rightarrow> error + bool" where
  "consistent_loop cw asg [] seen_values = Inr True"
| "consistent_loop cw asg ((i, w) # rest) seen_values =
     (if w \<noteq> [] then
        if length w \<noteq> var_length i then Inr False
        else if w \<in> set seen_values then Inr False
        else
          (case check_neighbors cw asg i w (neighbors cw i) of
             Inl e \<Rightarrow> Inl e
           | Inr ok \<Rightarrow>
              if ok then consistent_loop cw asg rest (seen_values @ [w]) else Inr False)
      else consistent_loop cw asg rest seen_values)"

definition consistent :: "crossword \<Rightarrow> assignment \<Rightarrow> error + bool" where
  "consistent cw asg = consistent_loop cw asg asg []"

subsection \<open>Variable selection\<close>

text \<open>
  The loop of \<open>select_unassigned_variable\<close> with its three locals \<open>length\<close> (first
  \<open>float('inf')\<close>), \<open>chosen_variable\<close> and \<open>length_neigh\<close>.
\<close>

fun select_loop ::
  "crossword \<Rightarrow> assignment \<Rightarrow> domains \<Rightarrow> variable list \<Rightarrow> enat \<times> variable option \<times> nat \<Rightarrow>
     error + (enat \<times> variable option \<times> nat)" where
  "select_loop cw asg st [] acc = Inr acc"
| "select_loop cw asg st (i # rest) (len, chosen_variable, length_neigh) =
     (if asg \<noteq> [] \<and> assigned asg i then
        select_loop cw asg st rest (len, chosen_variable, length_neigh)
      else
        (case dom_get st i of
           Inl e \<Rightarrow> Inl e
         | Inr d \<Rightarrow>
            if enat (length d) < len then
              select_loop cw asg st rest (enat (length d), Some i, length (neighbors cw i))
            else if enat (length d) = len then
              (if length_neigh < length (neighbors cw i) then
                 select_loop cw asg st rest (len, Some i, length_neigh)
               else select_loop cw asg st rest (len, chosen_variable, length_neigh))
            else select_loop cw asg st rest (len, chosen_variable, length_neigh)))"

definition select_unassigned_variable ::
  "crossword \<Rightarrow> assignment \<Rightarrow> domains \<Rightarrow> error + variable option" where
  "select_unassigned_variable cw asg st =
     (case select_loop cw asg st (variables cw) (\<infinity>, None, 0) of
        Inl e \<Rightarrow> Inl e
      | Inr (len, chosen_variable, length_neigh) \<Rightarrow> Inr chosen_variable)"

subsection \<open>Value ordering\<close>

text \<open>The first loop of \<open>order_domain_values\<close>: the copies of the neighbors' domains.\<close>

fun snapshot :: "domains \<Rightarrow> variable list \<Rightarrow> domains \<Rightarrow> error + domains" where
  "snapshot st [] original = Inr original"
| "snapshot st (i # rest) original =
     (case dom_get st i of
        Inl e \<Rightarrow> Inl e
      | Inr d \<Rightarrow> snapshot st rest (original(i \<mapsto> d)))"

text \<open>The loop that adds up \<open>v_new\<close> over the neighbors that are not assigned.\<close>

fun eliminated :: "assignment \<Rightarrow> domains \<Rightarrow> domains \<Rightarrow> variable list \<Rightarrow> int \<Rightarrow> error + int" where
  "eliminated asg original st [] v_new = Inr v_new"
| "eliminated asg original st (j # rest) v_new =
     (if \<not> assigned asg j then
        (case dom_get original j of
           Inl e \<Rightarrow> Inl e
         | Inr d0 \<Rightarrow>
            (case dom_get st j of
               Inl e \<Rightarrow> Inl e
             | Inr d \<Rightarrow> eliminated asg original st rest (v_new + (int (length d0) - int (length d)))))
      else eliminated asg original st rest v_new)"

text \<open>
  The loop over the candidates: each probe narrows the variable to one word and runs
  \<open>ac3\<close> on the arcs from the neighbors with \<open>dom=True\<close>. The store is not put back
  between two candidates.
\<close>

fun probe_loop ::
  "crossword \<Rightarrow> variable \<Rightarrow> assignment \<Rightarrow> domains \<Rightarrow> word list \<Rightarrow> domains \<Rightarrow> word list \<times> int list \<Rightarrow>
     error + ((word list \<times> int list) \<times> domains)" where
  "probe_loop cw var asg original [] st acc = Inr (acc, st)"
| "probe_loop cw var asg original (w # rest) st (domain, vals) =
     (case ac3 cw (Some (map (\<lambda>i. (i, var)) (neighbors cw var))) True (st(var \<mapsto> [w])) of
        Inl e \<Rightarrow> Inl e
      | Inr (ok, st1) \<Rightarrow>
         if ok then
           (case eliminated asg original st1 (neighbors cw var) 0 of
              Inl e \<Rightarrow> Inl e
            | Inr v_new \<Rightarrow> probe_loop cw var asg original rest st1 (domain @ [w], vals @ [v_new]))
         else probe_loop cw var asg original rest st1 (domain, vals))"

text \<open>The last loop: every neighbor gets a copy of its saved domain.\<close>

fun restore :: "domains \<Rightarrow> variable list \<Rightarrow> domains \<Rightarrow> error + domains" where
  "restore original [] st = Inr st"
| "restore original (i # rest) st =
     (case dom_get original i of
        Inl e \<Rightarrow> Inl e
      | Inr d \<Rightarrow> restore original rest (st(i \<mapsto> d)))"

text \<open>
  \<open>sorted(zip(values, domain))\<close> orders the pairs by the number first and by the word
  second; strings compare character by character.
\<close>

definition order_domain_values ::
  "crossword \<Rightarrow> variable \<Rightarrow> assignment \<Rightarrow> domains \<Rightarrow> error + (word list \<times> domains)" where
  "order_domain_values cw var asg st =
     (case dom_get st var of
        Inl e \<Rightarrow> Inl e
      | Inr original_var_domain \<Rightarrow>
         (case snapshot st (neighbors cw var) Map.empty of
            Inl e \<Rightarrow> Inl e
          | Inr original_neighbor_domain \<Rightarrow>
             (case probe_loop cw var asg original_neighbor_domain original_var_domain st ([], []) of
                Inl e \<Rightarrow> Inl e
              | Inr ((domain, vals), st1) \<Rightarrow>
                 (case restore original_neighbor_domain (neighbors cw var) st1 of
                    Inl e \<Rightarrow> Inl e
                  | Inr st2 \<Rightarrow>
                     Inr (map snd (sort (zip vals domain)), st2(var \<mapsto> original_var_domain))))))"

subsection \<open>Backtracking search\<close>

text \<open>
  What \<open>backtrack\<close> returns: \<open>None\<close>, \<open>False\<close> or an assignment. \<open>truthy\<close> is the test
  \<open>if result:\<close>; an empty dict is falsy.
\<close>

datatype result = RNone | RFalse | RAssignment assignment

fun truthy :: "result \<Rightarrow> bool" where
  "truthy (RAssignment a) = (a \<noteq> [])"
| "truthy RNone = False"
| "truthy RFalse = False"

text \<open>
  A record of what the search did, which the source does not keep: \<open>Called a\<close> for
  every invocation of \<open>backtrack\<close> with the assignment it received, \<open>Tried v w\<close> for every
  \<open>assignment[var] = value\<close>, \<open>Emptied v w\<close> when the propagation after that assignment
  returned \<open>False\<close>. It takes no part in any decision.
\<close>

datatype event = Called assignment | Tried variable word | Emptied variable word

type_synonym outcome = "result \<times> domains \<times> event list"

text \<open>
  \<open>backtrack\<close> and its loop over the candidates. The first argument bounds the depth of
  nested invocations: the interpreter raises \<open>RecursionError\<close> beyond its limit.
  \<open>asg1\<close> is the copy \<open>assignment1\<close>; every turn of the loop starts from it and from the
  store \<open>st\<close>, which the turn before has put back.
\<close>

fun backtrack :: "nat \<Rightarrow> crossword \<Rightarrow> assignment \<Rightarrow> domains \<Rightarrow> error + outcome"
  and try_values ::
    "nat \<Rightarrow> crossword \<Rightarrow> variable \<Rightarrow> assignment \<Rightarrow> word list \<Rightarrow> domains \<Rightarrow> error + outcome" where
  "backtrack 0 cw asg st = Inl RecursionError"
| "backtrack (Suc k) cw asg st =
     (if assignment_complete cw asg then Inr (RAssignment asg, st, [Called asg])
      else
        (case select_unassigned_variable cw asg st of
           Inl e \<Rightarrow> Inl e
         | Inr None \<Rightarrow> Inl KeyError
         | Inr (Some var) \<Rightarrow>
            (case order_domain_values cw var asg st of
               Inl e \<Rightarrow> Inl e
             | Inr (candidates, st1) \<Rightarrow>
                (case try_values k cw var asg candidates st1 of
                   Inl e \<Rightarrow> Inl e
                 | Inr (r, st2, tr) \<Rightarrow> Inr (r, st2, Called asg # tr)))))"
| "try_values k cw var asg1 [] st = Inr (RNone, st, [])"
| "try_values k cw var asg1 (w # rest) st =
     (case consistent cw (AList.update var w asg1) of
        Inl e \<Rightarrow> Inl e
      | Inr ok \<Rightarrow>
         if ok then
           (case ac3 cw (Some (map (\<lambda>i. (i, var)) (neighbors cw var))) False (st(var \<mapsto> [w])) of
              Inl e \<Rightarrow> Inl e
            | Inr (ok', st1) \<Rightarrow>
               if \<not> ok' then Inr (RFalse, st1, [Tried var w, Emptied var w])
               else
                 (case backtrack k cw (AList.update var w asg1) st1 of
                    Inl e \<Rightarrow> Inl e
                  | Inr (r, st2, tr) \<Rightarrow>
                     if truthy r then Inr (r, st2, Tried var w # tr)
                     else
                       (case try_values k cw var asg1 rest st of
                          Inl e \<Rightarrow> Inl e
                        | Inr (r', st3, tr') \<Rightarrow> Inr (r', st3, Tried var w # tr @ tr'))))
         else
           (case try_values k cw var asg1 rest st of
              Inl e \<Rightarrow> Inl e
            | Inr (r', st3, tr') \<Rightarrow> Inr (r', st3, Tried var w # tr')))"

text \<open>\<open>solve\<close>; the result of the first \<open>ac3\<close> is dropped.\<close>

definition solve :: "nat \<Rightarrow> crossword \<Rightarrow> domains \<Rightarrow> error + outcome" where
  "solve limit cw st =
     (case ac3 cw None False (enforce_node_consistency st) of
        Inl e \<Rightarrow> Inl e
      | Inr (ok, st1) \<Rightarrow> backtrack limit cw [] st1)"

text \<open>A creator made for a crossword and asked to solve it, as \<open>main\<close> does.\<close>

definition generate :: "nat \<Rightarrow> crossword \<Rightarrow> error + outcome" where
  "generate limit cw = solve limit cw (init_domains cw)"

subsection \<open>Example puzzles\<close>

text \<open>
  Modelled from the spec: the overlap table is built by the module \<open>crossword\<close>, which
  is not among the sources. The spec (section 3) gives the overlap of two variables as
  absent when they share no cell, and otherwise as the pair of the positions of the
  shared cell in the two words; a variable occupies \<open>length\<close> cells from its start in
  its direction. The table has an entry for every ordered pair of different variables.
  These definitions only build the tables of the examples below.
\<close>

definition cells :: "variable \<Rightarrow> (nat \<times> nat) list" where
  "cells v =
     map (\<lambda>k. (var_i v + (if var_direction v = DOWN then k else 0),
               var_j v + (if var_direction v = ACROSS then k else 0)))
       [0 ..< var_length v]"

definition position :: "nat \<times> nat \<Rightarrow> (nat \<times> nat) list \<Rightarrow> nat" where
  "position c cs = length (takeWhile (\<lambda>d. d \<noteq> c) cs)"

definition overlap_of :: "variable \<Rightarrow> variable \<Rightarrow> (nat \<times> nat) option" where
  "overlap_of v1 v2 =
     (case filter (\<lambda>c. c \<in> set (cells v2)) (cells v1) of
        [] \<Rightarrow> None
      | c # cs \<Rightarrow> Some (position c (cells v1), position c (cells v2)))"

definition overlap_table :: "variable list \<Rightarrow> (arc \<times> (nat \<times> nat) option) list" where
  "overlap_table vs =
     concat (map (\<lambda>v1. map (\<lambda>v2. ((v1, v2), overlap_of v1 v2)) (filter (\<lambda>v2. v2 \<noteq> v1) vs)) vs)"

definition slot :: "nat \<Rightarrow> nat \<Rightarrow> direction \<Rightarrow> nat \<Rightarrow> variable" where
  "slot r c d l = \<lparr>var_i = r, var_j = c, var_direction = d, var_length = l\<rparr>"

text \<open>
  The ring: four slots around a block, of lengths 3 to 6, in a grid of 5 rows and 6
  columns whose rows are \<^verbatim>\<open>___###\<close>, \<^verbatim>\<open>_#_###\<close>, \<^verbatim>\<open>______\<close>, \<^verbatim>\<open>_#_###\<close>,
  \<^verbatim>\<open>##_###\<close>. The two words of each length fit their crossings pairwise, and no
  choice of four words fits all four crossings.
\<close>

definition ring_vars :: "variable list" where
  "ring_vars = [slot 0 0 ACROSS 3, slot 0 0 DOWN 4, slot 0 2 DOWN 5, slot 2 0 ACROSS 6]"

definition ring :: crossword where
  "ring =
     \<lparr>variables = ring_vars,
      words = [''ATA'', ''BTB'', ''AIBI'', ''BIAI'', ''AEAEE'', ''BEBEE'', ''AOAOOO'', ''BOBOOO''],
      overlaps = overlap_table ring_vars\<rparr>"

text \<open>
  The ladder: three across slots of lengths 3, 4, 5 crossed by two down slots of
  lengths 6 and 7, in a grid of 7 rows and 5 columns whose rows are \<^verbatim>\<open>___##\<close>,
  \<^verbatim>\<open>_#_##\<close>, \<^verbatim>\<open>____#\<close>, \<^verbatim>\<open>_#_##\<close>, \<^verbatim>\<open>_____\<close>, \<^verbatim>\<open>_#_##\<close>, \<^verbatim>\<open>##_##\<close>.
\<close>

definition ladder_vars :: "variable list" where
  "ladder_vars =
     [slot 0 0 ACROSS 3, slot 2 0 ACROSS 4, slot 4 0 ACROSS 5, slot 0 0 DOWN 6, slot 0 2 DOWN 7]"

definition ladder :: crossword where
  "ladder =
     \<lparr>variables = ladder_vars,
      words =
        [''ANA'', ''CIA'', ''BRA'',
         ''AXSXTX'', ''AXTXUX'', ''AXUXSX'', ''BXSXSX'', ''CXSXSX'',
         ''AXSXSXX'', ''AXTXTXX'', ''AXUXUXX'', ''AXSXSXY'',
         ''SXSX'', ''TXTX'', ''UXUX'', ''SXSY'',
         ''SXSXX'', ''TXTXX'', ''UXUXX'', ''SXSXY''],
      overlaps = overlap_table ladder_vars\<rparr>"

definition ladder_solution :: assignment where
  "ladder_solution =
     [(slot 0 0 ACROSS 3, ''BRA''), (slot 0 0 DOWN 6, ''BXSXSX''), (slot 0 2 DOWN 7, ''AXSXSXX''),
      (slot 2 0 ACROSS 4, ''SXSX''), (slot 4 0 ACROSS 5, ''SXSXX'')]"

text \<open>
  The store of the ladder when the search begins, and after the propagation of its
  first candidate.
\<close>

definition ladder_store :: domains where
  "ladder_store =
     (case ac3 ladder None False (enforce_node_consistency (init_domains ladder)) of
        Inl e \<Rightarrow> Map.empty
      | Inr (ok, st) \<Rightarrow> st)"

definition ladder_store_ANA :: domains where
  "ladder_store_ANA =
     (case ac3 ladder (Some (map (\<lambda>i. (i, slot 0 0 ACROSS 3)) (neighbors ladder (slot 0 0 ACROSS 3)))) False
             (ladder_store(slot 0 0 ACROSS 3 \<mapsto> [''ANA''])) of
        Inl e \<Rightarrow> Map.empty
      | Inr (ok, st) \<Rightarrow> st)"

text \<open>
  The second ring: the ring with more words. It has a satisfying assignment, and the
  first candidate of the first variable cannot be completed.
\<close>

definition ring2 :: crossword where
  "ring2 =
     \<lparr>variables = ring_vars,
      words = [''ATA'', ''BTB'', ''BTA'', ''AIBI'', ''BIAI'', ''AJBJ'', ''AEAEE'', ''BEBEE'', ''AFAFF'',
               ''AOAOOO'', ''BOBOOO'', ''APAPPP''],
      overlaps = overlap_table ring_vars\<rparr>"

definition ring2_solution :: assignment where
  "ring2_solution =
     [(slot 0 0 ACROSS 3, ''BTA''), (slot 0 0 DOWN 4, ''BIAI''), (slot 0 2 DOWN 5, ''AEAEE''),
      (slot 2 0 ACROSS 6, ''AOAOOO'')]"

text \<open>The store of the second ring when the search begins.\<close>

definition ring2_store :: domains where
  "ring2_store =
     (case ac3 ring2 None False (enforce_node_consistency (init_domains ring2)) of
        Inl e \<Rightarrow> Map.empty
      | Inr (ok, st) \<Rightarrow> st)"

text \<open>
  The comb: an across slot of length 5 crossed by three down slots of length 3, two of
  which also cross a second across slot of length 3, in a grid of 3 rows and 5 columns
  whose rows are \<^verbatim>\<open>_____\<close>, \<^verbatim>\<open>_#_#_\<close>, \<^verbatim>\<open>___#_\<close>.
\<close>

definition comb_vars :: "variable list" where
  "comb_vars =
     [slot 0 4 DOWN 3, slot 0 0 ACROSS 5, slot 2 0 ACROSS 3, slot 0 0 DOWN 3, slot 0 2 DOWN 3]"

definition comb :: crossword where
  "comb =
     \<lparr>variables = comb_vars,
      words = [''HELLO'', ''HAT'', ''LOT'', ''OAK'', ''TOT''],
      overlaps = overlap_table comb_vars\<rparr>"

text \<open>The ring with a vocabulary that has no word of length 6.\<close>

definition gap :: crossword where
  "gap =
     \<lparr>variables = ring_vars,
      words = [''ATA'', ''BTB'', ''AIBI'', ''BIAI'', ''AEAEE'', ''BEBEE''],
      overlaps = overlap_table ring_vars\<rparr>"

text \<open>The parts of an outcome.\<close>

definition outcome_result :: "error + outcome \<Rightarrow> result option" where
  "outcome_result out = (case out of Inl e \<Rightarrow> None | Inr (r, st, tr) \<Rightarrow> Some r)"

definition outcome_trace :: "error + outcome \<Rightarrow> event list" where
  "outcome_trace out = (case out of Inl e \<Rightarrow> [] | Inr (r, st, tr) \<Rightarrow> tr)"

subsection \<open>Predicates of the specification\<close>

text \<open>
  Two words agree at an overlap: both indices are inside the words and the characters
  there are equal. A word of \<open>x\<close> is supported when the domain of \<open>y\<close> holds a word that
  agrees with it.
\<close>

definition compatible :: "word \<Rightarrow> nat \<Rightarrow> word \<Rightarrow> nat \<Rightarrow> bool" where
  "compatible w m w' n \<longleftrightarrow> m < length w \<and> n < length w' \<and> w ! m = w' ! n"

definition supported :: "domains \<Rightarrow> variable \<Rightarrow> nat \<Rightarrow> nat \<Rightarrow> word \<Rightarrow> bool" where
  "supported st y m n w \<longleftrightarrow>
     (case st y of None \<Rightarrow> False | Some ys \<Rightarrow> \<exists>w' \<in> set ys. compatible w m w' n)"

text \<open>
  Modelled from the spec: what the puzzle model built by the module \<open>crossword\<close>
  guarantees (sections 3 and 7). The variables form a set; the overlap table is a dict
  whose keys are pairs of different variables of the puzzle; the overlap of an unordered
  pair read in the other direction has its indices swapped; the indices lie inside the
  lengths of the two variables.
\<close>

definition well_formed :: "crossword \<Rightarrow> bool" where
  "well_formed cw \<longleftrightarrow>
     distinct (variables cw) \<and>
     distinct (map fst (overlaps cw)) \<and>
     (\<forall>((x, y), ov) \<in> set (overlaps cw).
        x \<in> set (variables cw) \<and> y \<in> set (variables cw) \<and> x \<noteq> y \<and>
        (case ov of
           None \<Rightarrow> True
         | Some (m, n) \<Rightarrow>
            m < var_length x \<and> n < var_length y \<and>
            map_of (overlaps cw) (y, x) = Some (Some (n, m))))"

text \<open>What the consistency check establishes, spelled out.\<close>

definition fits :: "crossword \<Rightarrow> assignment \<Rightarrow> bool" where
  "fits cw asg \<longleftrightarrow>
     (\<forall>(v, w) \<in> set asg. w \<noteq> [] \<longrightarrow> length w = var_length v) \<and>
     distinct (filter (\<lambda>w. w \<noteq> []) (map snd asg)) \<and>
     (\<forall>(v, w) \<in> set asg. \<forall>u \<in> set (neighbors cw v). \<forall>w'.
        w \<noteq> [] \<longrightarrow> map_of asg u = Some w' \<longrightarrow> w' \<noteq> [] \<longrightarrow>
        (\<exists>m n. map_of (overlaps cw) (u, v) = Some (Some (m, n)) \<and> compatible w' m w n))"

text \<open>
  An assignment over the domains takes every word from the domain of its variable. A
  satisfying assignment is a dict over the variables that is complete and passes
  \<open>consistent\<close>.
\<close>

definition in_domains :: "domains \<Rightarrow> assignment \<Rightarrow> bool" where
  "in_domains st asg \<longleftrightarrow>
     (\<forall>(v, w) \<in> set asg. case st v of None \<Rightarrow> False | Some d \<Rightarrow> w \<in> set d)"

definition satisfying :: "crossword \<Rightarrow> assignment \<Rightarrow> bool" where
  "satisfying cw asg \<longleftrightarrow>
     distinct (map fst asg) \<and> set (map fst asg) \<subseteq> set (variables cw) \<and>
     assignment_complete cw asg \<and> consistent cw asg = Inr True"

text \<open>The keys of an assignment made by the search are variables of the puzzle.\<close>

definition keys_ok :: "crossword \<Rightarrow> assignment \<Rightarrow> bool" where
  "keys_ok cw asg \<longleftrightarrow> distinct (map fst asg) \<and> set (map fst asg) \<subseteq> set (variables cw)"

text \<open>
  An arc is consistent when every word of its first variable is supported. The
  invariant of the worklist: an arc with a defined overlap is pending or consistent.
\<close>

definition arc_ok :: "domains \<Rightarrow> variable \<Rightarrow> variable \<Rightarrow> nat \<Rightarrow> nat \<Rightarrow> bool" where
  "arc_ok st x y m n \<longleftrightarrow>
     (case st x of None \<Rightarrow> True | Some xs \<Rightarrow> \<forall>w \<in> set xs. supported st y m n w)"

definition covered :: "crossword \<Rightarrow> arc list \<Rightarrow> domains \<Rightarrow> bool" where
  "covered cw arcs st \<longleftrightarrow>
     (\<forall>x y m n. map_of (overlaps cw) (x, y) = Some (Some (m, n)) \<longrightarrow>
        (x, y) \<in> set arcs \<or> arc_ok st x y m n)"

text \<open>The state after node consistency: every variable is a key and holds words of its length.\<close>

definition node_consistent :: "crossword \<Rightarrow> domains \<Rightarrow> bool" where
  "node_consistent cw st \<longleftrightarrow>
     (\<forall>u \<in> set (variables cw).
        case st u of None \<Rightarrow> False | Some d \<Rightarrow> \<forall>w \<in> set d. length w = var_length u)"

text \<open>Arcs whose overlap is defined.\<close>

definition proper_arcs :: "crossword \<Rightarrow> arc list \<Rightarrow> bool" where
  "proper_arcs cw arcs \<longleftrightarrow>
     (\<forall>(x, y) \<in> set arcs. case map_of (overlaps cw) (x, y) of Some (Some ov) \<Rightarrow> True | _ \<Rightarrow> False)"

text \<open>The test of \<open>select_unassigned_variable\<close> that lets a variable take part.\<close>

definition unassigned :: "assignment \<Rightarrow> variable \<Rightarrow> bool" where
  "unassigned asg i \<longleftrightarrow> \<not> (asg \<noteq> [] \<and> assigned asg i)"

text \<open>
  Lines 257 to 262 of \<open>backtrack\<close>: the variable is narrowed to the candidate and \<open>ac3\<close>
  runs on the arcs from its neighbors, in full-propagation mode.
\<close>

abbreviation propagate :: "crossword \<Rightarrow> variable \<Rightarrow> word \<Rightarrow> domains \<Rightarrow> error + (bool \<times> domains)" where
  "propagate cw var w st \<equiv>
     ac3 cw (Some (map (\<lambda>i. (i, var)) (neighbors cw var))) False (st(var \<mapsto> [w]))"

text \<open>The ordering that \<open>order_domain_values\<close> returns.\<close>

definition candidates :: "crossword \<Rightarrow> variable \<Rightarrow> assignment \<Rightarrow> domains \<Rightarrow> word list option" where
  "candidates cw var asg st =
     (case order_domain_values cw var asg st of Inl e \<Rightarrow> None | Inr (ws, st1) \<Rightarrow> Some ws)"

text \<open>
  The invocation \<open>backtrack\<close> of depth \<open>Suc k\<close> on \<open>asg\<close> and \<open>st\<close> comes to the candidate
  \<open>w\<close> of its variable \<open>var\<close>, and \<open>w\<close> passes the consistency check: the assignment is not
  complete, \<open>var\<close> is selected, the ordering is \<open>pre @ w # rest\<close>, and the loop has given up
  every candidate of \<open>pre\<close>, leaving the record \<open>tr\<close>. The loop runs on \<open>st\<close>, since
  \<open>order_domain_values\<close> returns the store as it found it.
\<close>

definition reaches ::
  "nat \<Rightarrow> crossword \<Rightarrow> assignment \<Rightarrow> domains \<Rightarrow> variable \<Rightarrow> word list \<Rightarrow> word \<Rightarrow> word list \<Rightarrow>
     event list \<Rightarrow> bool" where
  "reaches k cw asg st var pre w rest tr \<longleftrightarrow>
     \<not> assignment_complete cw asg \<and>
     select_unassigned_variable cw asg st = Inr (Some var) \<and>
     candidates cw var asg st = Some (pre @ w # rest) \<and>
     outcome_result (try_values k cw var asg pre st) = Some RNone \<and>
     outcome_trace (try_values k cw var asg pre st) = tr \<and>
     consistent cw (AList.update var w asg) = Inr True"

section \<open>Properties\<close>

subsection \<open>Termination of the propagation\<close>

lemma ac3_while_total: "ac3_while cw dm arcs st = Some (ac3_loop cw dm arcs st)"
proof (induction cw dm arcs st rule: ac3_loop.induct)
  case (1 cw dm st)
  show ?case by (subst ac3_while.simps) simp
next
  case (2 cw dm x y arcs st)
  show ?case
  proof (cases "revise cw x y st")
    case (Inl e)
    then show ?thesis by (subst ac3_while.simps) simp
  next
    case (Inr r)
    obtain revised st' where r: "r = (revised, st')" by (cases r)
    show ?thesis
    proof (cases revised)
      case False
      with 2(3) [OF Inr r [symmetric]] Inr r show ?thesis
        by (subst ac3_while.simps) simp
    next
      case True
      show ?thesis
      proof (cases "dom_get st' x")
        case (Inl e)
        with Inr r True show ?thesis by (subst ac3_while.simps) simp
      next
        case d: (Inr d)
        show ?thesis
        proof (cases "length d = 0")
          case True
          with Inr r \<open>revised\<close> d show ?thesis by (subst ac3_while.simps) simp
        next
          case False
          with 2(1) [OF Inr r [symmetric] True d] 2(2) [OF Inr r [symmetric] True d]
            Inr r True d
          show ?thesis by (subst ac3_while.simps) (cases dm; simp)
        qed
      qed
    qed
  qed
qed

text \<open>
  Claim C8. \<open>ac3\<close> terminates on every input: the worklist loop, run on any initial
  arcs, in either mode and on any domain store, returns a result (a truth value with the
  narrowed store, or an exception). An arc is appended only after a revision that
  strictly shrank a domain (\<open>revise_shrinks\<close>), and no revision makes a domain grow
  (\<open>revise_dom_size_le\<close>).
\<close>

theorem ac3_terminates: "\<exists>r. ac3_run cw arcs dm st = Some r"
  by (simp add: ac3_run_def ac3_while_total)

subsection \<open>The value-ordering probe leaves the store as it was\<close>

lemma revise_other:
  assumes "revise cw x y st = Inr (revised, st')" and "v \<noteq> x"
  shows "st' v = st v"
  using revise_result [OF assms(1)] assms(2) by auto

lemma ac3_loop_single_pass_frame:
  "ac3_loop cw True arcs st = Inr (b, st') \<Longrightarrow> v \<notin> fst ` set arcs \<Longrightarrow> st' v = st v"
proof (induction arcs arbitrary: st)
  case Nil
  then show ?case by simp
next
  case (Cons a arcs)
  obtain x y where a: "a = (x, y)" by (cases a)
  from Cons.prems(1) a obtain revised st1 where
    rev: "revise cw x y st = Inr (revised, st1)"
    by (auto split: sum.splits)
  from Cons.prems(2) a have vx: "v \<noteq> x" and v: "v \<notin> fst ` set arcs" by auto
  have st1: "st1 v = st v" by (rule revise_other [OF rev vx])
  from Cons.prems(1) a rev have
    "(b, st') = (False, st1) \<or> ac3_loop cw True arcs st1 = Inr (b, st')"
    by (auto split: sum.splits if_splits)
  then show ?case
  proof
    assume "(b, st') = (False, st1)"
    with st1 show ?thesis by simp
  next
    assume "ac3_loop cw True arcs st1 = Inr (b, st')"
    from Cons.IH [OF this v] st1 show ?thesis by simp
  qed
qed

lemma probe_loop_frame:
  "probe_loop cw var asg original cands st acc = Inr (acc', st') \<Longrightarrow>
     v \<noteq> var \<Longrightarrow> v \<notin> set (neighbors cw var) \<Longrightarrow> st' v = st v"
proof (induction cands arbitrary: st acc)
  case Nil
  then show ?case by simp
next
  case (Cons w rest)
  obtain domain vals where acc: "acc = (domain, vals)" by (cases acc)
  let ?arcs = "map (\<lambda>i. (i, var)) (neighbors cw var)"
  from Cons.prems(1) acc obtain ok st1 where
    probe: "ac3 cw (Some ?arcs) True (st(var \<mapsto> [w])) = Inr (ok, st1)"
    by (auto split: sum.splits)
  from Cons.prems(3) have "v \<notin> fst ` set ?arcs" by (auto simp: image_iff)
  from probe have "ac3_loop cw True ?arcs (st(var \<mapsto> [w])) = Inr (ok, st1)"
    by (simp add: ac3_def)
  from ac3_loop_single_pass_frame [OF this \<open>v \<notin> fst ` set ?arcs\<close>]
  have "st1 v = (st(var \<mapsto> [w])) v" .
  with Cons.prems(2) have st1: "st1 v = st v" by simp
  from Cons.prems(1) acc probe obtain acc1 where
    "probe_loop cw var asg original rest st1 acc1 = Inr (acc', st')"
    by (auto split: sum.splits if_splits)
  from Cons.IH [OF this Cons.prems(2,3)] st1 show ?case by simp
qed

lemma snapshot_result:
  "snapshot st ns original = Inr original' \<Longrightarrow>
     original' i = (if i \<in> set ns then st i else original i)"
proof (induction ns arbitrary: original)
  case Nil
  then show ?case by simp
next
  case (Cons n ns)
  from Cons.prems obtain d where d: "st n = Some d"
    and rest: "snapshot st ns (original(n \<mapsto> d)) = Inr original'"
    by (auto simp: dom_get_def split: sum.splits option.splits)
  from Cons.IH [OF rest] d show ?case by auto
qed

lemma restore_result:
  "restore original ns st = Inr st' \<Longrightarrow>
     st' i = (if i \<in> set ns then original i else st i)"
proof (induction ns arbitrary: st)
  case Nil
  then show ?case by simp
next
  case (Cons n ns)
  from Cons.prems obtain d where d: "original n = Some d"
    and rest: "restore original ns (st(n \<mapsto> d)) = Inr st'"
    by (auto simp: dom_get_def split: sum.splits option.splits)
  from Cons.IH [OF rest] d show ?case by auto
qed

lemma order_domain_values_frame:
  assumes "order_domain_values cw var asg st = Inr (ws, st')"
  shows "st' = st"
proof
  fix v
  from assms obtain d0 original acc st1 st2 where
    d0: "st var = Some d0"
    and snap: "snapshot st (neighbors cw var) Map.empty = Inr original"
    and probe: "probe_loop cw var asg original d0 st ([], []) = Inr (acc, st1)"
    and rest: "restore original (neighbors cw var) st1 = Inr st2"
    and st': "st' = st2(var \<mapsto> d0)"
    by (auto simp: order_domain_values_def dom_get_def split: sum.splits option.splits prod.splits)
  show "st' v = st v"
  proof (cases "v = var")
    case True
    with st' d0 show ?thesis by simp
  next
    case False
    show ?thesis
    proof (cases "v \<in> set (neighbors cw var)")
      case True
      with restore_result [OF rest, of v] snapshot_result [OF snap, of v] st' False
      show ?thesis by simp
    next
      case nb: False
      with restore_result [OF rest, of v] probe_loop_frame [OF probe False nb] st' False
      show ?thesis by simp
    qed
  qed
qed

text \<open>
  Claim C4. For every variable and every assignment, a call of \<open>order_domain_values\<close>
  that returns leaves the domain store exactly as it was before the call; its only
  effect is the returned ordering.
\<close>

theorem order_domain_values_restores:
  assumes "order_domain_values cw var asg st = Inr (ws, st')"
  shows "st' = st"
  using assms by (rule order_domain_values_frame)

theorem order_domain_values_restores_witness:
  "\<exists>ws. order_domain_values ring (slot 0 0 ACROSS 3) [] (enforce_node_consistency (init_domains ring)) =
     Inr (ws, enforce_node_consistency (init_domains ring))"
proof -
  let ?st = "enforce_node_consistency (init_domains ring)"
  have "\<not> isl (order_domain_values ring (slot 0 0 ACROSS 3) [] ?st)"
    by code_simp
  then obtain ws st' where
    r: "order_domain_values ring (slot 0 0 ACROSS 3) [] ?st = Inr (ws, st')"
    by (cases "order_domain_values ring (slot 0 0 ACROSS 3) [] ?st") auto
  from order_domain_values_restores [OF r] r show ?thesis by auto
qed

subsection \<open>What a revision removes\<close>

lemma any_match_iff:
  "any_match w m n ys = Inr b \<Longrightarrow> b \<longleftrightarrow> (\<exists>w' \<in> set ys. compatible w m w' n)"
proof (induction ys)
  case Nil
  then show ?case by simp
next
  case (Cons y ys)
  from Cons.prems have m: "m < length w" and n: "n < length y"
    by (auto simp: char_at_def split: if_splits sum.splits)
  show ?case
  proof (cases "w ! m = y ! n")
    case True
    with Cons.prems m n show ?thesis by (auto simp: char_at_def compatible_def)
  next
    case False
    with Cons.prems m n have "any_match w m n ys = Inr b" by (simp add: char_at_def)
    from Cons.IH [OF this] False show ?thesis by (auto simp: compatible_def)
  qed
qed

lemma revise_loop_removed:
  "revise_loop m n st y ws (remove, revised) = Inr (remove', revised') \<Longrightarrow>
     set remove' = set remove \<union> {w \<in> set ws. \<not> supported st y m n w}"
proof (induction ws arbitrary: remove revised)
  case Nil
  then show ?case by simp
next
  case (Cons w ws)
  from Cons.prems obtain ys found where
    ys: "st y = Some ys" and found: "any_match w m n ys = Inr found"
    by (auto simp: dom_get_def split: sum.splits option.splits)
  from any_match_iff [OF found] ys have f: "found \<longleftrightarrow> supported st y m n w"
    by (simp add: supported_def)
  show ?case
  proof (cases found)
    case True
    with Cons.prems ys found
    have "revise_loop m n st y ws (remove, revised) = Inr (remove', revised')"
      by (simp add: dom_get_def)
    from Cons.IH [OF this] True f show ?thesis by auto
  next
    case False
    with Cons.prems ys found
    have "revise_loop m n st y ws (remove @ [w], True) = Inr (remove', revised')"
      by (simp add: dom_get_def)
    from Cons.IH [OF this] False f show ?thesis by auto
  qed
qed

lemma revise_overlap:
  assumes "revise cw x y st = Inr (revised, st')"
    and "map_of (overlaps cw) (x, y) = Some (Some (m, n))"
  shows "\<exists>xs. st x = Some xs \<and> st' = st(x \<mapsto> filter (supported st y m n) xs) \<and>
           (revised \<longleftrightarrow> (\<exists>w \<in> set xs. \<not> supported st y m n w))"
proof -
  from assms obtain xs remove where
    xs: "st x = Some xs"
    and loop: "revise_loop m n st y xs ([], False) = Inr (remove, revised)"
    and st': "st' = st(x \<mapsto> filter (\<lambda>w. w \<notin> set remove) xs)"
    by (auto simp: revise_def lookup_overlap_def dom_get_def split: sum.splits option.splits prod.splits)
  from revise_loop_removed [OF loop]
  have rem: "set remove = {w \<in> set xs. \<not> supported st y m n w}" by simp
  then have "filter (\<lambda>w. w \<notin> set remove) xs = filter (supported st y m n) xs"
    by (intro filter_cong) auto
  moreover have "remove \<noteq> [] \<longleftrightarrow> set remove \<noteq> {}" by simp
  with revise_loop_acc [OF loop] rem
  have "revised \<longleftrightarrow> (\<exists>w \<in> set xs. \<not> supported st y m n w)" by auto
  ultimately show ?thesis using xs st' by simp
qed

lemma revise_no_overlap:
  assumes "revise cw x y st = Inr (revised, st')"
    and "map_of (overlaps cw) (x, y) = Some None"
  shows "st' = st \<and> \<not> revised"
proof -
  from assms obtain xs where "st x = Some xs" "st' = st(x \<mapsto> xs)" "\<not> revised"
    by (auto simp: revise_def lookup_overlap_def dom_get_def split: sum.splits option.splits)
  then show ?thesis by (auto simp: fun_upd_idem)
qed

lemma revise_defined:
  assumes "revise cw x y st = Inr (revised, st')"
  shows "\<exists>ov. map_of (overlaps cw) (x, y) = Some ov"
  using assms by (auto simp: revise_def lookup_overlap_def split: sum.splits option.splits)

subsection \<open>What the consistency check establishes\<close>

lemma check_neighbors_ok:
  "check_neighbors cw asg i wi ns = Inr True \<Longrightarrow> n \<in> set ns \<Longrightarrow>
     map_of asg n = Some wn \<Longrightarrow> wn \<noteq> [] \<Longrightarrow>
     \<exists>x y. map_of (overlaps cw) (n, i) = Some (Some (x, y)) \<and> compatible wn x wi y"
proof (induction ns)
  case Nil
  then show ?case by simp
next
  case (Cons u us)
  show ?case
  proof (cases "u = n")
    case True
    with Cons.prems(1,3,4) show ?thesis
      by (auto simp: lookup_overlap_def char_at_def compatible_def
          split: option.splits sum.splits if_splits)
  next
    case False
    from Cons.prems(1) have "check_neighbors cw asg i wi us = Inr True"
      by (auto split: option.splits sum.splits if_splits)
    with Cons.IH Cons.prems(2-4) False show ?thesis by auto
  qed
qed

lemma consistent_loop_ok:
  "consistent_loop cw asg entries seen = Inr True \<Longrightarrow> (i, wi) \<in> set entries \<Longrightarrow> wi \<noteq> [] \<Longrightarrow>
     length wi = var_length i \<and> check_neighbors cw asg i wi (neighbors cw i) = Inr True"
proof (induction entries arbitrary: seen)
  case Nil
  then show ?case by simp
next
  case (Cons e entries)
  obtain j wj where e: "e = (j, wj)" by (cases e)
  show ?case
  proof (cases "(i, wi) = e")
    case True
    with Cons.prems(1,3) e show ?thesis
      by (auto split: sum.splits if_splits)
  next
    case False
    from Cons.prems(1) e obtain seen' where
      "consistent_loop cw asg entries seen' = Inr True"
      by (auto split: sum.splits if_splits)
    from Cons.IH [OF this] Cons.prems(2,3) False show ?thesis by auto
  qed
qed

lemma consistent_loop_distinct:
  "consistent_loop cw asg entries seen = Inr True \<Longrightarrow> distinct seen \<Longrightarrow>
     distinct (seen @ filter (\<lambda>w. w \<noteq> []) (map snd entries))"
proof (induction entries arbitrary: seen)
  case Nil
  then show ?case by simp
next
  case (Cons e entries)
  obtain j wj where e: "e = (j, wj)" by (cases e)
  show ?case
  proof (cases "wj = []")
    case True
    with Cons.prems e have "consistent_loop cw asg entries seen = Inr True" by simp
    from Cons.IH [OF this Cons.prems(2)] True e show ?thesis by simp
  next
    case False
    with Cons.prems(1) e have new: "wj \<notin> set seen"
      and rest: "consistent_loop cw asg entries (seen @ [wj]) = Inr True"
      by (auto split: sum.splits if_splits)
    from new Cons.prems(2) have "distinct (seen @ [wj])" by simp
    from Cons.IH [OF rest this] False e show ?thesis by simp
  qed
qed

lemma consistent_fits:
  assumes "consistent cw asg = Inr True"
  shows "fits cw asg"
proof -
  from assms have loop: "consistent_loop cw asg asg [] = Inr True"
    by (simp add: consistent_def)
  have "distinct (filter (\<lambda>w. w \<noteq> []) (map snd asg))"
    using consistent_loop_distinct [OF loop] by simp
  moreover have "length w = var_length v" if "(v, w) \<in> set asg" "w \<noteq> []" for v w
    using consistent_loop_ok [OF loop that] by simp
  moreover have "\<exists>m n. map_of (overlaps cw) (u, v) = Some (Some (m, n)) \<and> compatible w' m w n"
    if "(v, w) \<in> set asg" "w \<noteq> []" "u \<in> set (neighbors cw v)" "map_of asg u = Some w'" "w' \<noteq> []"
    for v w u w'
  proof -
    from consistent_loop_ok [OF loop that(1,2)]
    have "check_neighbors cw asg v w (neighbors cw v) = Inr True" by simp
    from check_neighbors_ok [OF this that(3,4,5)] show ?thesis .
  qed
  ultimately show ?thesis unfolding fits_def by blast
qed

lemma complete_keys:
  assumes "assignment_complete cw asg" and "distinct (map fst asg)"
    and "set (map fst asg) \<subseteq> set (variables cw)" and "distinct (variables cw)"
  shows "set (map fst asg) = set (variables cw)"
proof -
  from assms(1) have len: "length asg = length (variables cw)"
    by (simp add: assignment_complete_def split: if_splits)
  have "card (set (map fst asg)) = length asg"
    using assms(2) distinct_card [of "map fst asg"] by simp
  moreover have "card (set (variables cw)) = length (variables cw)"
    using assms(4) by (rule distinct_card)
  ultimately have "card (set (map fst asg)) = card (set (variables cw))"
    using len by simp
  with assms(3) show ?thesis by (intro card_subset_eq) auto
qed

lemma complete_nonempty:
  assumes "assignment_complete cw asg" and "(v, w) \<in> set asg"
  shows "w \<noteq> []"
  using assms by (auto simp: assignment_complete_def list_all_iff split: if_splits)

subsection \<open>Propagation keeps satisfying assignments\<close>

lemma well_formed_overlap:
  assumes "well_formed cw" and "map_of (overlaps cw) (x, y) = Some (Some (m, n))"
  shows "x \<in> set (variables cw)" "y \<in> set (variables cw)" "x \<noteq> y"
    "m < var_length x" "n < var_length y" "map_of (overlaps cw) (y, x) = Some (Some (n, m))"
proof -
  from assms(2) have "((x, y), Some (m, n)) \<in> set (overlaps cw)" by (rule map_of_SomeD)
  with assms(1) show "x \<in> set (variables cw)" "y \<in> set (variables cw)" "x \<noteq> y"
    "m < var_length x" "n < var_length y" "map_of (overlaps cw) (y, x) = Some (Some (n, m))"
    unfolding well_formed_def by fastforce+
qed

lemma neighbors_iff:
  "u \<in> set (neighbors cw v) \<longleftrightarrow>
     u \<in> set (variables cw) \<and> u \<noteq> v \<and> (\<exists>ov. map_of (overlaps cw) (u, v) = Some (Some ov))"
  by (auto simp: neighbors_def split: option.splits)

lemma satisfying_supported:
  assumes wf: "well_formed cw" and sat: "satisfying cw asg" and inside: "in_domains st asg"
    and ov: "map_of (overlaps cw) (x, y) = Some (Some (m, n))"
    and xw: "(x, w) \<in> set asg"
  shows "supported st y m n w"
proof -
  note o = well_formed_overlap [OF wf ov]
  from sat have keys: "distinct (map fst asg)" "set (map fst asg) \<subseteq> set (variables cw)"
    and complete: "assignment_complete cw asg" and cons: "consistent cw asg = Inr True"
    by (simp_all add: satisfying_def)
  from wf have "distinct (variables cw)" by (simp add: well_formed_def)
  from complete_keys [OF complete keys this] o(2) have "y \<in> fst ` set asg" by simp
  then obtain wy where yw: "(y, wy) \<in> set asg" by force
  from xw keys(1) have mx: "map_of asg x = Some w" by simp
  have ne: "w \<noteq> []" "wy \<noteq> []"
    using complete_nonempty [OF complete] xw yw by auto
  from o(1,3) ov have nb: "x \<in> set (neighbors cw y)" by (auto simp: neighbors_iff)
  from consistent_fits [OF cons] yw ne nb mx ov have "compatible w m wy n"
    unfolding fits_def by fastforce
  moreover from inside yw obtain ys where "st y = Some ys" "wy \<in> set ys"
    by (auto simp: in_domains_def split: option.splits)
  ultimately show ?thesis by (auto simp: supported_def)
qed

lemma revise_keeps_solution:
  assumes wf: "well_formed cw" and sat: "satisfying cw asg" and inside: "in_domains st asg"
    and rev: "revise cw x y st = Inr (revised, st')"
  shows "in_domains st' asg"
  unfolding in_domains_def
proof (clarify)
  fix v w
  assume vw: "(v, w) \<in> set asg"
  with inside obtain d where d: "st v = Some d" "w \<in> set d"
    by (auto simp: in_domains_def split: option.splits)
  from revise_defined [OF rev] obtain ov where ov: "map_of (overlaps cw) (x, y) = Some ov" ..
  show "case st' v of None \<Rightarrow> False | Some d \<Rightarrow> w \<in> set d"
  proof (cases ov)
    case None
    with revise_no_overlap [OF rev] ov d show ?thesis by simp
  next
    case (Some mn)
    obtain m n where mn: "mn = (m, n)" by (cases mn)
    with ov Some have ov': "map_of (overlaps cw) (x, y) = Some (Some (m, n))" by simp
    from revise_overlap [OF rev ov'] obtain xs where
      xs: "st x = Some xs" and st': "st' = st(x \<mapsto> filter (supported st y m n) xs)" by blast
    show ?thesis
    proof (cases "v = x")
      case True
      with vw have "supported st y m n w"
        using satisfying_supported [OF wf sat inside ov'] by simp
      with True d xs st' show ?thesis by simp
    next
      case False
      with d st' show ?thesis by simp
    qed
  qed
qed

lemma ac3_loop_keeps_solution:
  "well_formed cw \<Longrightarrow> satisfying cw asg \<Longrightarrow> in_domains st asg \<Longrightarrow>
     ac3_loop cw dm arcs st = Inr (ok, st') \<Longrightarrow> in_domains st' asg"
proof (induction cw dm arcs st rule: ac3_loop.induct)
  case (1 cw dm st)
  then show ?case by simp
next
  case (2 cw dm x y arcs st)
  from "2.prems"(4) obtain revised st1 where
    rev: "revise cw x y st = Inr (revised, st1)"
    by (auto split: sum.splits)
  from revise_keeps_solution [OF "2.prems"(1,2,3) rev] have in1: "in_domains st1 asg" .
  show ?case
  proof (cases revised)
    case False
    with "2.prems"(4) rev have "ac3_loop cw dm arcs st1 = Inr (ok, st')" by simp
    from "2.IH"(3) [OF rev refl False "2.prems"(1,2) in1 this] show ?thesis .
  next
    case True
    from "2.prems"(4) rev True obtain d where d: "dom_get st1 x = Inr d"
      by (auto split: sum.splits)
    show ?thesis
    proof (cases "length d = 0")
      case empty: True
      with "2.prems"(4) rev \<open>revised\<close> d have "st' = st1" by simp
      with in1 show ?thesis by simp
    next
      case nonempty: False
      show ?thesis
      proof (cases dm)
        case dmT: True
        with "2.prems"(4) rev \<open>revised\<close> d nonempty
        have run: "ac3_loop cw dm arcs st1 = Inr (ok, st')" by simp
        from dmT have "\<not> \<not> dm" by simp
        from "2.IH"(2) [OF rev refl \<open>revised\<close> d nonempty this "2.prems"(1,2) in1 run]
        show ?thesis .
      next
        case dmF: False
        with "2.prems"(4) rev \<open>revised\<close> d nonempty
        have "ac3_loop cw dm (arcs @ requeue cw x y) st1 = Inr (ok, st')" by simp
        from "2.IH"(1) [OF rev refl \<open>revised\<close> d nonempty dmF "2.prems"(1,2) in1 this]
        show ?thesis .
      qed
    qed
  qed
qed

text \<open>
  Claim C6. Completeness of arc consistency: in a well-formed puzzle, an assignment that
  is complete and consistent and takes every value from the domains before a run of
  \<open>ac3\<close> (on any arcs, in either mode) still takes every value from the domains after
  the run. Neither \<open>revise\<close> nor \<open>ac3\<close> removes a value of a satisfying assignment.
\<close>

theorem ac3_keeps_satisfying_assignments:
  assumes "well_formed cw" and "satisfying cw asg" and "in_domains st asg"
    and "ac3 cw arcs dm st = Inr (ok, st')"
  shows "in_domains st' asg"
  using assms ac3_loop_keeps_solution unfolding ac3_def by blast

lemma ladder_well_formed: "well_formed ladder"
  by code_simp

lemma ladder_solution_satisfying: "satisfying ladder ladder_solution"
  by code_simp

theorem ac3_keeps_satisfying_assignments_witness:
  "well_formed ladder \<and> satisfying ladder ladder_solution \<and>
   in_domains (enforce_node_consistency (init_domains ladder)) ladder_solution \<and>
   (\<exists>ok st'. ac3 ladder None False (enforce_node_consistency (init_domains ladder)) = Inr (ok, st') \<and>
      in_domains st' ladder_solution)"
proof -
  let ?st = "enforce_node_consistency (init_domains ladder)"
  have inside: "in_domains ?st ladder_solution" by code_simp
  have "\<not> isl (ac3 ladder None False ?st)" by code_simp
  then obtain ok st' where r: "ac3 ladder None False ?st = Inr (ok, st')"
    by (cases "ac3 ladder None False ?st") auto
  from ac3_keeps_satisfying_assignments [OF ladder_well_formed ladder_solution_satisfying inside r]
  have "in_domains st' ladder_solution" .
  with r inside ladder_well_formed ladder_solution_satisfying show ?thesis by blast
qed

subsection \<open>The search returns consistent assignments\<close>

lemma select_loop_chosen:
  "select_loop cw asg st vs (len, chosen, lg) = Inr (len', chosen', lg') \<Longrightarrow>
     chosen' = Some c \<Longrightarrow> chosen = Some c \<or> c \<in> set vs"
proof (induction vs arbitrary: len chosen lg)
  case Nil
  then show ?case by simp
next
  case (Cons i rest)
  from Cons.prems(1) obtain len1 chosen1 lg1 where
    step: "select_loop cw asg st rest (len1, chosen1, lg1) = Inr (len', chosen', lg')"
    and c1: "chosen1 = chosen \<or> chosen1 = Some i"
    by (auto split: sum.splits if_splits)
  from Cons.IH [OF step Cons.prems(2)] c1 show ?case by auto
qed

lemma select_unassigned_variable_member:
  assumes "select_unassigned_variable cw asg st = Inr (Some var)"
  shows "var \<in> set (variables cw)"
proof -
  from assms obtain len lg where
    "select_loop cw asg st (variables cw) (\<infinity>, None, 0) = Inr (len, Some var, lg)"
    by (auto simp: select_unassigned_variable_def split: sum.splits prod.splits)
  from select_loop_chosen [OF this refl] show ?thesis by simp
qed

lemma keys_ok_update:
  assumes "keys_ok cw asg" and "var \<in> set (variables cw)"
  shows "keys_ok cw (AList.update var w asg)"
  using assms by (auto simp: keys_ok_def distinct_update update_keys)

lemma try_values_sound:
  assumes IH: "\<And>asg st a st' tr.
      backtrack k cw asg st = Inr (RAssignment a, st', tr) \<Longrightarrow> keys_ok cw asg \<Longrightarrow>
      consistent cw asg = Inr True \<Longrightarrow> satisfying cw a"
    and keys: "keys_ok cw asg1" and var: "var \<in> set (variables cw)"
  shows "try_values k cw var asg1 ws st = Inr (RAssignment a, st', tr) \<Longrightarrow> satisfying cw a"
proof (induction ws arbitrary: st' tr)
  case Nil
  then show ?case by simp
next
  case (Cons w rest)
  let ?asg = "AList.update var w asg1"
  from Cons.prems obtain ok where ok: "consistent cw ?asg = Inr ok"
    by (auto split: sum.splits)
  show ?case
  proof (cases ok)
    case False
    with Cons.prems ok obtain st3 tr' where
      "try_values k cw var asg1 rest st = Inr (RAssignment a, st3, tr')"
      by (auto split: sum.splits)
    from Cons.IH [OF this] show ?thesis .
  next
    case True
    from Cons.prems ok True obtain ok' st1 where
      pr: "ac3 cw (Some (map (\<lambda>i. (i, var)) (neighbors cw var))) False (st(var \<mapsto> [w])) = Inr (ok', st1)"
      by (auto split: sum.splits)
    from Cons.prems ok True pr have ok': "ok'"
      by (auto split: if_splits)
    from Cons.prems ok True pr ok' obtain r st2 tr2 where
      rec: "backtrack k cw ?asg st1 = Inr (r, st2, tr2)"
      by (auto split: sum.splits)
    show ?thesis
    proof (cases "truthy r")
      case t: True
      with Cons.prems ok True pr ok' rec have "r = RAssignment a" by simp
      with rec have "backtrack k cw ?asg st1 = Inr (RAssignment a, st2, tr2)" by simp
      moreover have "keys_ok cw ?asg" by (rule keys_ok_update [OF keys var])
      moreover from ok True have "consistent cw ?asg = Inr True" by simp
      ultimately show ?thesis by (rule IH)
    next
      case f: False
      with Cons.prems ok True pr ok' rec obtain st3 tr' where
        "try_values k cw var asg1 rest st = Inr (RAssignment a, st3, tr')"
        by (auto split: sum.splits)
      from Cons.IH [OF this] show ?thesis .
    qed
  qed
qed

lemma backtrack_sound:
  "backtrack k cw asg st = Inr (RAssignment a, st', tr) \<Longrightarrow> keys_ok cw asg \<Longrightarrow>
     consistent cw asg = Inr True \<Longrightarrow> satisfying cw a"
proof (induction k arbitrary: asg st a st' tr)
  case 0
  then show ?case by simp
next
  case (Suc k)
  show ?case
  proof (cases "assignment_complete cw asg")
    case True
    with Suc.prems show ?thesis by (simp add: satisfying_def keys_ok_def)
  next
    case False
    with Suc.prems(1) obtain var cands st1 st2 tr' where
      sel: "select_unassigned_variable cw asg st = Inr (Some var)"
      and loop: "try_values k cw var asg cands st1 = Inr (RAssignment a, st2, tr')"
      by (auto split: sum.splits option.splits)
    from try_values_sound [OF Suc.IH Suc.prems(2) select_unassigned_variable_member [OF sel] loop]
    show ?thesis by simp
  qed
qed

text \<open>
  Claim C7. Whenever \<open>solve\<close> returns a mapping, the mapping is complete (one
  non-empty word for each variable) and passes the consistency check: every word has
  the length of its variable, no word is assigned twice, and assigned neighbors agree
  on the characters at their overlap.
\<close>

theorem solve_returns_consistent_assignment:
  assumes "solve limit cw st = Inr (RAssignment a, st', tr)" and "distinct (variables cw)"
  shows "assignment_complete cw a \<and> consistent cw a = Inr True \<and>
         distinct (map fst a) \<and> set (map fst a) = set (variables cw) \<and>
         (\<forall>(v, w) \<in> set a. w \<noteq> [] \<and> length w = var_length v) \<and>
         distinct (map snd a) \<and>
         (\<forall>(v, w) \<in> set a. \<forall>(u, w') \<in> set a. u \<in> set (neighbors cw v) \<longrightarrow>
            (\<exists>m n. map_of (overlaps cw) (u, v) = Some (Some (m, n)) \<and> compatible w' m w n))"
proof -
  from assms(1) obtain st1 where "backtrack limit cw [] st1 = Inr (RAssignment a, st', tr)"
    by (auto simp: solve_def split: sum.splits)
  from backtrack_sound [OF this] have sat: "satisfying cw a"
    by (simp add: keys_ok_def consistent_def)
  then have keys: "distinct (map fst a)" "set (map fst a) \<subseteq> set (variables cw)"
    and complete: "assignment_complete cw a" and cons: "consistent cw a = Inr True"
    by (simp_all add: satisfying_def)
  note ne = complete_nonempty [OF complete]
  from consistent_fits [OF cons] have fits: "fits cw a" .
  have "filter (\<lambda>w. w \<noteq> []) (map snd a) = map snd a"
    using ne by (auto simp: filter_id_conv)
  with fits have words: "distinct (map snd a)" by (simp add: fits_def)
  have lens: "\<forall>(v, w) \<in> set a. w \<noteq> [] \<and> length w = var_length v"
  proof (clarify)
    fix v w
    assume vw: "(v, w) \<in> set a"
    from ne [OF vw] fits vw show "w \<noteq> [] \<and> length w = var_length v"
      unfolding fits_def by fastforce
  qed
  have agree: "\<exists>m n. map_of (overlaps cw) (u, v) = Some (Some (m, n)) \<and> compatible w' m w n"
    if "(v, w) \<in> set a" "(u, w') \<in> set a" "u \<in> set (neighbors cw v)" for v w u w'
  proof -
    from that(2) keys(1) have "map_of a u = Some w'" by simp
    with fits that ne [OF that(1)] ne [OF that(2)] show ?thesis
      unfolding fits_def by fastforce
  qed
  from complete cons keys(1) complete_keys [OF complete keys assms(2)] lens words agree
  show ?thesis by blast
qed

lemma ladder_solved: "outcome_result (generate 10 ladder) = Some (RAssignment ladder_solution)"
  by code_simp

theorem solve_returns_consistent_assignment_witness:
  "\<exists>st' tr. solve 10 ladder (init_domains ladder) = Inr (RAssignment ladder_solution, st', tr) \<and>
     assignment_complete ladder ladder_solution \<and>
     consistent ladder ladder_solution = Inr True \<and>
     set (map fst ladder_solution) = set (variables ladder) \<and>
     distinct (map snd ladder_solution)"
proof -
  from ladder_solved obtain st' tr where
    r: "solve 10 ladder (init_domains ladder) = Inr (RAssignment ladder_solution, st', tr)"
    by (auto simp: outcome_result_def generate_def split: sum.splits)
  have "distinct (variables ladder)" by code_simp
  from solve_returns_consistent_assignment [OF r this] r show ?thesis by blast
qed

subsection \<open>Propagation over all arcs establishes arc consistency\<close>

lemma compatible_sym: "compatible w m w' n \<Longrightarrow> compatible w' n w m"
  by (auto simp: compatible_def)

lemma covered_all_arcs: "covered cw (all_arcs cw) st"
  unfolding covered_def
proof (intro allI impI)
  fix x y m n
  assume "map_of (overlaps cw) (x, y) = Some (Some (m, n))"
  then have "((x, y), Some (m, n)) \<in> set (overlaps cw)" by (rule map_of_SomeD)
  then have "(x, y) \<in> set (all_arcs cw)" by (force simp: all_arcs_def)
  then show "(x, y) \<in> set (all_arcs cw) \<or> arc_ok st x y m n" ..
qed

lemma covered_unrevised:
  assumes rev: "revise cw x y st = Inr (False, st1)" and cov: "covered cw ((x, y) # rest) st"
  shows "covered cw rest st1"
  unfolding covered_def
proof (intro allI impI)
  fix a b p q
  assume ov: "map_of (overlaps cw) (a, b) = Some (Some (p, q))"
  from revise_unrevised [OF rev] have st1: "st1 = st" .
  show "(a, b) \<in> set rest \<or> arc_ok st1 a b p q"
  proof (cases "(a, b) = (x, y)")
    case True
    with ov revise_overlap [OF rev] st1 have "arc_ok st1 a b p q"
      by (auto simp: arc_ok_def)
    then show ?thesis ..
  next
    case False
    with cov ov st1 show ?thesis by (auto simp: covered_def)
  qed
qed

lemma covered_revised:
  assumes wf: "well_formed cw"
    and rev: "revise cw x y st = Inr (True, st1)" and cov: "covered cw ((x, y) # rest) st"
  shows "covered cw (rest @ requeue cw x y) st1"
  unfolding covered_def
proof (intro allI impI)
  fix a b p q
  assume ov: "map_of (overlaps cw) (a, b) = Some (Some (p, q))"
  note o = well_formed_overlap [OF wf ov]
  from revise_defined [OF rev] obtain ovxy where "map_of (overlaps cw) (x, y) = Some ovxy" ..
  with revise_no_overlap [OF rev] obtain m n where
    xy: "map_of (overlaps cw) (x, y) = Some (Some (m, n))"
    by (cases ovxy) auto
  note oxy = well_formed_overlap [OF wf xy]
  from revise_overlap [OF rev xy] obtain xs where
    xs: "st x = Some xs" and st1: "st1 = st(x \<mapsto> filter (supported st y m n) xs)" by blast
  have other: "st1 v = st v" if "v \<noteq> x" for v using st1 that by simp
  have sup_other: "supported st1 v i j w = supported st v i j w" if "v \<noteq> x" for v i j w
    using other [OF that] by (simp add: supported_def)
  from cov ov have old: "(a, b) = (x, y) \<or> (a, b) \<in> set rest \<or> arc_ok st a b p q"
    by (auto simp: covered_def)
  show "(a, b) \<in> set (rest @ requeue cw x y) \<or> arc_ok st1 a b p q"
  proof (cases "a = x")
    case ax: True
    with o(3) have bx: "b \<noteq> x" by simp
    show ?thesis
    proof (cases "b = y")
      case True
      with ax ov xy have "p = m" "q = n" by simp_all
      with ax True st1 sup_other [OF oxy(3) [symmetric]] have "arc_ok st1 a b p q"
        by (simp add: arc_ok_def)
      then show ?thesis ..
    next
      case False
      with old ax have "(a, b) \<in> set rest \<or> arc_ok st a b p q" by simp
      then show ?thesis
      proof
        assume "(a, b) \<in> set rest"
        then show ?thesis by simp
      next
        assume "arc_ok st a b p q"
        with ax xs st1 sup_other [OF bx] have "arc_ok st1 a b p q"
          by (simp add: arc_ok_def)
        then show ?thesis ..
      qed
    qed
  next
    case ax: False
    show ?thesis
    proof (cases "b = x")
      case bx: True
      show ?thesis
      proof (cases "a = y")
        case False
        from o(1) ax ov bx have "a \<in> set (neighbors cw x)" by (auto simp: neighbors_iff)
        with False bx have "(a, b) \<in> set (requeue cw x y)" by (simp add: requeue_def)
        then show ?thesis by simp
      next
        case ay: True
        with bx ov oxy(6) have pq: "p = n" "q = m" by simp_all
        from old ay bx oxy(3) have "(a, b) \<in> set rest \<or> arc_ok st y x n m"
          using pq by auto
        then show ?thesis
        proof
          assume "(a, b) \<in> set rest"
          then show ?thesis by simp
        next
          assume ok: "arc_ok st y x n m"
          have "arc_ok st1 y x n m"
            unfolding arc_ok_def
          proof (cases "st1 y")
            case None
            then show "case st1 y of None \<Rightarrow> True | Some xs \<Rightarrow> \<forall>w \<in> set xs. supported st1 x n m w"
              by simp
          next
            case (Some ys)
            with other [of y] oxy(3) have ys: "st y = Some ys" by simp
            have "supported st1 x n m w'" if w': "w' \<in> set ys" for w'
            proof -
              from ok ys w' have "supported st x n m w'" by (simp add: arc_ok_def)
              with xs obtain w where w: "w \<in> set xs" "compatible w' n w m"
                by (auto simp: supported_def)
              from compatible_sym [OF w(2)] ys w' have "supported st y m n w"
                by (auto simp: supported_def)
              with w st1 show ?thesis by (auto simp: supported_def)
            qed
            with Some show "case st1 y of None \<Rightarrow> True | Some xs \<Rightarrow> \<forall>w \<in> set xs. supported st1 x n m w"
              by simp
          qed
          with ay bx pq show ?thesis by simp
        qed
      qed
    next
      case bx: False
      from old ax have "(a, b) \<in> set rest \<or> arc_ok st a b p q" by auto
      then show ?thesis
      proof
        assume "(a, b) \<in> set rest"
        then show ?thesis by simp
      next
        assume "arc_ok st a b p q"
        with other [OF ax] sup_other [OF bx] have "arc_ok st1 a b p q"
          by (simp add: arc_ok_def split: option.splits)
        then show ?thesis ..
      qed
    qed
  qed
qed

lemma ac3_loop_covered:
  "well_formed cw \<Longrightarrow> \<not> dm \<Longrightarrow> covered cw arcs st \<Longrightarrow>
     ac3_loop cw dm arcs st = Inr (True, st') \<Longrightarrow> covered cw [] st'"
proof (induction cw dm arcs st rule: ac3_loop.induct)
  case (1 cw dm st)
  then show ?case by simp
next
  case (2 cw dm x y arcs st)
  from "2.prems"(4) obtain revised st1 where
    rev: "revise cw x y st = Inr (revised, st1)"
    by (auto split: sum.splits)
  show ?case
  proof (cases revised)
    case False
    with "2.prems"(4) rev have run: "ac3_loop cw dm arcs st1 = Inr (True, st')" by simp
    from False rev "2.prems"(3) have "covered cw arcs st1" by (auto intro: covered_unrevised)
    from "2.IH"(3) [OF rev refl False "2.prems"(1,2) this run] show ?thesis .
  next
    case True
    from "2.prems"(4) rev True obtain d where d: "dom_get st1 x = Inr d"
      by (auto split: sum.splits)
    from "2.prems"(4) rev True d have nonempty: "length d \<noteq> 0"
      by (auto split: if_splits)
    with "2.prems"(2,4) rev True d
    have run: "ac3_loop cw dm (arcs @ requeue cw x y) st1 = Inr (True, st')" by simp
    from True rev "2.prems"(1,3) have "covered cw (arcs @ requeue cw x y) st1"
      by (auto intro: covered_revised)
    from "2.IH"(1) [OF rev refl True d nonempty "2.prems"(2) "2.prems"(1,2) this run]
    show ?thesis .
  qed
qed

text \<open>
  Claim C5. Soundness of arc consistency: in a well-formed puzzle, whenever \<open>ac3\<close> run
  over all arcs in full-propagation mode returns \<open>True\<close>, then for every ordered pair
  of variables \<open>(x, y)\<close> with a defined overlap \<open>(m, n)\<close>, every word left in the domain
  of \<open>x\<close> has a word in the domain of \<open>y\<close> whose character at \<open>n\<close> equals its own
  character at \<open>m\<close>.
\<close>

theorem ac3_success_arc_consistent:
  assumes "well_formed cw" and "ac3 cw None False st = Inr (True, st')"
  shows "\<forall>((x, y), ov) \<in> set (overlaps cw). \<forall>m n xs. ov = Some (m, n) \<longrightarrow> st' x = Some xs \<longrightarrow>
           (\<forall>w \<in> set xs. \<exists>ys. st' y = Some ys \<and>
              (\<exists>w' \<in> set ys. m < length w \<and> n < length w' \<and> w ! m = w' ! n))"
proof (clarify)
  fix x y m n xs w
  assume entry: "((x, y), Some (m, n)) \<in> set (overlaps cw)"
    and xs: "st' x = Some xs" and w: "w \<in> set xs"
  from assms(1) have "distinct (map fst (overlaps cw))" by (simp add: well_formed_def)
  with entry have ov: "map_of (overlaps cw) (x, y) = Some (Some (m, n))" by simp
  from assms(2) have "ac3_loop cw False (all_arcs cw) st = Inr (True, st')"
    by (simp add: ac3_def)
  from ac3_loop_covered [OF assms(1) _ covered_all_arcs this] have "covered cw [] st'" by simp
  with ov have "arc_ok st' x y m n" by (auto simp: covered_def)
  with xs w have "supported st' y m n w" by (simp add: arc_ok_def)
  then show "\<exists>ys. st' y = Some ys \<and> (\<exists>w' \<in> set ys. m < length w \<and> n < length w' \<and> w ! m = w' ! n)"
    by (auto simp: supported_def compatible_def split: option.splits)
qed

theorem ac3_success_arc_consistent_witness:
  "well_formed ladder \<and>
   (\<exists>st'. ac3 ladder None False (enforce_node_consistency (init_domains ladder)) = Inr (True, st') \<and>
      (\<forall>((x, y), ov) \<in> set (overlaps ladder). \<forall>m n xs. ov = Some (m, n) \<longrightarrow> st' x = Some xs \<longrightarrow>
         (\<forall>w \<in> set xs. \<exists>ys. st' y = Some ys \<and>
            (\<exists>w' \<in> set ys. m < length w \<and> n < length w' \<and> w ! m = w' ! n))))"
proof -
  let ?st = "enforce_node_consistency (init_domains ladder)"
  have "case ac3 ladder None False ?st of Inl e \<Rightarrow> False | Inr (ok, st') \<Rightarrow> ok"
    by code_simp
  then obtain st' where r: "ac3 ladder None False ?st = Inr (True, st')"
    by (auto split: sum.splits prod.splits)
  from ac3_success_arc_consistent [OF ladder_well_formed r] r ladder_well_formed
  show ?thesis by blast
qed

subsection \<open>Variable selection on ties\<close>

text \<open>
  Claim C3. \<open>select_unassigned_variable\<close> is to return an unassigned variable of
  minimal domain size and, among the unassigned variables of that size, one with the
  largest number of neighbors. The code does not do the second: \<open>length_neigh\<close> keeps
  the degree of the variable that first reached the minimal size when the choice moves
  to another variable on a tie. On the comb, with every domain of size 5, it returns the
  down slot at column 2 (2 neighbors) although the across slot of length 5 has 3.
\<close>

theorem select_unassigned_variable_comb:
  "select_unassigned_variable comb [] (init_domains comb) = Inr (Some (slot 0 2 DOWN 3)) \<and>
   map (dom_size (init_domains comb)) comb_vars = [5, 5, 5, 5, 5] \<and>
   length (neighbors comb (slot 0 2 DOWN 3)) = 2 \<and>
   length (neighbors comb (slot 0 0 ACROSS 5)) = 3"
  by code_simp

subsection \<open>Candidates left out of the ordering\<close>

lemma probe_loop_append:
  "probe_loop cw var asg original (xs @ ys) st acc =
     (case probe_loop cw var asg original xs st acc of
        Inl e \<Rightarrow> Inl e
      | Inr (acc1, st1) \<Rightarrow> probe_loop cw var asg original ys st1 acc1)"
proof (induction xs arbitrary: st acc)
  case Nil
  show ?case by simp
next
  case (Cons x xs)
  obtain domain vals where acc: "acc = (domain, vals)" by (cases acc)
  show ?case unfolding acc
    by (simp add: Cons.IH split: sum.splits prod.splits)
qed

lemma probe_loop_domain:
  "probe_loop cw var asg original cands st (domain, vals) = Inr ((domain', vals'), st') \<Longrightarrow>
     length vals = length domain \<Longrightarrow>
     length vals' = length domain' \<and> set domain' \<subseteq> set domain \<union> set cands"
proof (induction cands arbitrary: st domain vals)
  case Nil
  then show ?case by auto
next
  case (Cons w rest)
  from Cons.prems(1) obtain st1 domain1 vals1 where
    step: "probe_loop cw var asg original rest st1 (domain1, vals1) = Inr ((domain', vals'), st')"
    and acc1: "(domain1 = domain \<and> vals1 = vals) \<or> (\<exists>v. domain1 = domain @ [w] \<and> vals1 = vals @ [v])"
    by (auto split: sum.splits if_splits)
  from acc1 Cons.prems(2) have "length vals1 = length domain1" by auto
  from Cons.IH [OF step this] acc1 show ?case by auto
qed

lemma sorted_candidates:
  assumes "length vals = length domain"
  shows "set (map snd (sort (zip vals domain))) = set domain"
proof -
  have "set (map snd (sort (zip vals domain))) = snd ` set (zip vals domain)" by simp
  also have "\<dots> = set (map snd (zip vals domain))" by simp
  also have "map snd (zip vals domain) = domain" using assms by simp
  finally show ?thesis .
qed

lemma order_domain_values_omits:
  assumes run: "order_domain_values cw var asg st = Inr (ws, st')"
    and dom: "st var = Some (pre @ w # post)" and dist: "distinct (pre @ w # post)"
    and snap: "snapshot st (neighbors cw var) Map.empty = Inr original"
    and before: "probe_loop cw var asg original pre st ([], []) = Inr (acc, st1)"
    and probe: "ac3 cw (Some (map (\<lambda>i. (i, var)) (neighbors cw var))) True (st1(var \<mapsto> [w])) = Inr (False, st2)"
  shows "w \<notin> set ws \<and> set ws \<subseteq> set (pre @ w # post) - {w}"
proof -
  obtain domain1 vals1 where acc: "acc = (domain1, vals1)" by (cases acc)
  from run dom snap obtain domain vals st3 where
    loop: "probe_loop cw var asg original (pre @ w # post) st ([], []) = Inr ((domain, vals), st3)"
    and ws: "ws = map snd (sort (zip vals domain))"
    by (auto simp: order_domain_values_def dom_get_def split: sum.splits prod.splits)
  from loop before acc probe
  have rest: "probe_loop cw var asg original post st2 (domain1, vals1) = Inr ((domain, vals), st3)"
    by (simp add: probe_loop_append)
  from probe_loop_domain [OF before [unfolded acc]]
  have one: "length vals1 = length domain1" "set domain1 \<subseteq> set pre" by auto
  from probe_loop_domain [OF rest one(1)]
  have two: "length vals = length domain" "set domain \<subseteq> set domain1 \<union> set post" by auto
  from sorted_candidates [OF two(1)] ws have "set ws = set domain" by simp
  with one(2) two(2) dist show ?thesis by auto
qed

text \<open>
  Claim C10. \<open>order_domain_values\<close> may return a strict subset of the variable's
  domain: a candidate whose probe (the run of \<open>ac3\<close> with \<open>dom=True\<close> on the store as
  the probes of the candidates before it have left it) returns \<open>False\<close> is not in the
  returned ordering, although it is still in the variable's domain after the call.
\<close>

theorem order_domain_values_omits_failed_probe:
  assumes "order_domain_values cw var asg st = Inr (ws, st')"
    and "st var = Some (pre @ w # post)" and "distinct (pre @ w # post)"
    and "snapshot st (neighbors cw var) Map.empty = Inr original"
    and "probe_loop cw var asg original pre st ([], []) = Inr (acc, st1)"
    and "ac3 cw (Some (map (\<lambda>i. (i, var)) (neighbors cw var))) True (st1(var \<mapsto> [w])) = Inr (False, st2)"
  shows "w \<notin> set ws \<and> set ws \<subset> set (pre @ w # post) \<and> st' var = Some (pre @ w # post)"
proof -
  from order_domain_values_omits [OF assms]
  have "w \<notin> set ws" "set ws \<subseteq> set (pre @ w # post) - {w}" by simp_all
  then have "set ws \<subset> set (pre @ w # post)" by auto
  with \<open>w \<notin> set ws\<close> order_domain_values_frame [OF assms(1)] assms(2) show ?thesis by simp
qed

theorem order_domain_values_omits_failed_probe_witness:
  "\<exists>ws st'. order_domain_values ring (slot 0 0 ACROSS 3) [] (enforce_node_consistency (init_domains ring)) =
       Inr (ws, st') \<and>
     ''BTB'' \<notin> set ws \<and> set ws \<subset> {''ATA'', ''BTB''} \<and>
     st' (slot 0 0 ACROSS 3) = Some [''ATA'', ''BTB'']"
proof -
  let ?st = "enforce_node_consistency (init_domains ring)"
  let ?var = "slot 0 0 ACROSS 3"
  let ?arcs = "map (\<lambda>i. (i, ?var)) (neighbors ring ?var)"
  have "\<not> isl (order_domain_values ring ?var [] ?st)" by code_simp
  then obtain ws st' where run: "order_domain_values ring ?var [] ?st = Inr (ws, st')"
    by (cases "order_domain_values ring ?var [] ?st") auto
  have dom: "?st ?var = Some ([''ATA''] @ ''BTB'' # [])" by code_simp
  have dist: "distinct ([''ATA''] @ ''BTB'' # [])" by simp
  have "case snapshot ?st (neighbors ring ?var) Map.empty of
          Inl e \<Rightarrow> False
        | Inr original \<Rightarrow>
           (case probe_loop ring ?var [] original [''ATA''] ?st ([], []) of
              Inl e \<Rightarrow> False
            | Inr (acc, st1) \<Rightarrow>
               (case ac3 ring (Some ?arcs) True (st1(?var \<mapsto> [''BTB''])) of
                  Inl e \<Rightarrow> False
                | Inr (ok, st2) \<Rightarrow> \<not> ok))"
    by code_simp
  then obtain original where
    snap: "snapshot ?st (neighbors ring ?var) Map.empty = Inr original"
    and r1: "case probe_loop ring ?var [] original [''ATA''] ?st ([], []) of
               Inl e \<Rightarrow> False
             | Inr (acc, st1) \<Rightarrow>
                (case ac3 ring (Some ?arcs) True (st1(?var \<mapsto> [''BTB''])) of
                   Inl e \<Rightarrow> False
                 | Inr (ok, st2) \<Rightarrow> \<not> ok)"
    by (cases "snapshot ?st (neighbors ring ?var) Map.empty")
       (simp_all del: probe_loop.simps snapshot.simps)
  from r1 obtain acc st1 where
    before: "probe_loop ring ?var [] original [''ATA''] ?st ([], []) = Inr (acc, st1)"
    and r2: "case ac3 ring (Some ?arcs) True (st1(?var \<mapsto> [''BTB''])) of
               Inl e \<Rightarrow> False
             | Inr (ok, st2) \<Rightarrow> \<not> ok"
    by (cases "probe_loop ring ?var [] original [''ATA''] ?st ([], [])")
       (auto simp del: probe_loop.simps)
  from r2 obtain st2 where
    probe: "ac3 ring (Some ?arcs) True (st1(?var \<mapsto> [''BTB''])) = Inr (False, st2)"
    by (cases "ac3 ring (Some ?arcs) True (st1(?var \<mapsto> [''BTB'']))") auto
  from order_domain_values_omits_failed_probe [OF run dom dist snap before probe] run
  show ?thesis by auto
qed

subsection \<open>Propagation raises no exception on a well-formed puzzle\<close>

lemma node_consistent_get:
  assumes "node_consistent cw st" and "u \<in> set (variables cw)"
  shows "\<exists>d. st u = Some d \<and> (\<forall>w \<in> set d. length w = var_length u)"
  using assms by (auto simp: node_consistent_def split: option.splits)

lemma enforce_node_consistency_init:
  "node_consistent cw (enforce_node_consistency (init_domains cw))"
  by (simp add: node_consistent_def enforce_node_consistency_def init_domains_def)

lemma any_match_total:
  assumes "m < length w" and "\<forall>y \<in> set ys. n < length y"
  shows "\<exists>b. any_match w m n ys = Inr b"
  using assms by (induction ys) (auto simp: char_at_def)

lemma revise_loop_total:
  assumes "st y = Some ys" and "\<forall>w \<in> set ws. m < length w" and "\<forall>w' \<in> set ys. n < length w'"
  shows "\<exists>r. revise_loop m n st y ws acc = Inr r"
  using assms(2)
proof (induction ws arbitrary: acc)
  case Nil
  show ?case by simp
next
  case (Cons w ws)
  obtain remove revised where acc: "acc = (remove, revised)" by (cases acc)
  from Cons.prems have "m < length w" by simp
  from any_match_total [OF this assms(3)] obtain b where b: "any_match w m n ys = Inr b" ..
  from Cons.prems have rest: "\<forall>w \<in> set ws. m < length w" by simp
  from Cons.IH [OF rest] acc b assms(1) show ?case
    by (simp add: dom_get_def)
qed

lemma revise_total:
  assumes wf: "well_formed cw" and nc: "node_consistent cw st"
    and ov: "map_of (overlaps cw) (x, y) = Some (Some (m, n))"
  shows "\<exists>revised st'. revise cw x y st = Inr (revised, st')"
proof -
  note o = well_formed_overlap [OF wf ov]
  from node_consistent_get [OF nc o(1)] obtain xs where
    xs: "st x = Some xs" "\<forall>w \<in> set xs. length w = var_length x" by blast
  from node_consistent_get [OF nc o(2)] obtain ys where
    ys: "st y = Some ys" "\<forall>w \<in> set ys. length w = var_length y" by blast
  from xs(2) o(4) have "\<forall>w \<in> set xs. m < length w" by simp
  moreover from ys(2) o(5) have "\<forall>w' \<in> set ys. n < length w'" by simp
  ultimately obtain r where "revise_loop m n st y xs ([], False) = Inr r"
    using revise_loop_total [of st y ys xs m n "([], False)"] ys(1) by blast
  with ov xs(1) show ?thesis
    by (cases r) (simp add: revise_def lookup_overlap_def dom_get_def)
qed

lemma revise_node_consistent:
  assumes "revise cw x y st = Inr (revised, st')" and "node_consistent cw st"
  shows "node_consistent cw st'"
proof -
  from revise_result [OF assms(1)] obtain xs remove where
    "st x = Some xs" "st' = st(x \<mapsto> filter (\<lambda>w. w \<notin> set remove) xs)" by blast
  with assms(2) show ?thesis
    by (auto simp: node_consistent_def split: option.splits)
qed

lemma proper_arcs_requeue: "proper_arcs cw (requeue cw x y)"
  by (auto simp: proper_arcs_def requeue_def neighbors_def)

lemma proper_arcs_all: "distinct (map fst (overlaps cw)) \<Longrightarrow> proper_arcs cw (all_arcs cw)"
  by (auto simp: proper_arcs_def all_arcs_def)

lemma proper_arcs_neighbors: "proper_arcs cw (map (\<lambda>i. (i, var)) (neighbors cw var))"
  by (auto simp: proper_arcs_def neighbors_def)

lemma ac3_loop_total:
  "well_formed cw \<Longrightarrow> node_consistent cw st \<Longrightarrow> proper_arcs cw arcs \<Longrightarrow>
     \<exists>ok st'. ac3_loop cw dm arcs st = Inr (ok, st') \<and> node_consistent cw st' \<and>
       (\<forall>u. dom_size st' u \<le> dom_size st u)"
proof (induction cw dm arcs st rule: ac3_loop.induct)
  case (1 cw dm st)
  then show ?case by auto
next
  case (2 cw dm x y arcs st)
  from "2.prems"(3) obtain m n where ov: "map_of (overlaps cw) (x, y) = Some (Some (m, n))"
    by (auto simp: proper_arcs_def split: option.splits)
  from "2.prems"(3) have arcs: "proper_arcs cw arcs" by (simp add: proper_arcs_def)
  from revise_total [OF "2.prems"(1,2) ov] obtain revised st1 where
    rev: "revise cw x y st = Inr (revised, st1)" by blast
  note nc1 = revise_node_consistent [OF rev "2.prems"(2)]
  have le1: "dom_size st1 u \<le> dom_size st u" for u by (rule revise_dom_size_le [OF rev])
  from node_consistent_get [OF nc1 well_formed_overlap(1) [OF "2.prems"(1) ov]]
  obtain d where "st1 x = Some d" by blast
  then have d: "dom_get st1 x = Inr d" by (simp add: dom_get_def)
  show ?case
  proof (cases revised)
    case False
    from "2.IH"(3) [OF rev refl False "2.prems"(1) nc1 arcs] obtain ok st' where
      "ac3_loop cw dm arcs st1 = Inr (ok, st')" "node_consistent cw st'"
      "\<forall>u. dom_size st' u \<le> dom_size st1 u" by blast
    with rev False le1 show ?thesis by (auto intro: order_trans)
  next
    case True
    show ?thesis
    proof (cases "length d = 0")
      case empty: True
      with rev True d nc1 le1 show ?thesis by auto
    next
      case nonempty: False
      show ?thesis
      proof (cases dm)
        case dmT: True
        then have "\<not> \<not> dm" by simp
        from "2.IH"(2) [OF rev refl True d nonempty this "2.prems"(1) nc1 arcs] obtain ok st' where
          "ac3_loop cw dm arcs st1 = Inr (ok, st')" "node_consistent cw st'"
          "\<forall>u. dom_size st' u \<le> dom_size st1 u" by blast
        with rev True d nonempty dmT le1 show ?thesis by (auto intro: order_trans)
      next
        case dmF: False
        from arcs proper_arcs_requeue [of cw x y]
        have "proper_arcs cw (arcs @ requeue cw x y)" by (auto simp: proper_arcs_def)
        from "2.IH"(1) [OF rev refl True d nonempty dmF "2.prems"(1) nc1 this] obtain ok st' where
          "ac3_loop cw dm (arcs @ requeue cw x y) st1 = Inr (ok, st')" "node_consistent cw st'"
          "\<forall>u. dom_size st' u \<le> dom_size st1 u" by blast
        with rev True d nonempty dmF le1 show ?thesis by (auto intro: order_trans)
      qed
    qed
  qed
qed

subsection \<open>The selected variable has a smallest domain\<close>

lemma select_loop_minimal:
  assumes "\<forall>i \<in> set vs. st i \<noteq> None"
    and "chosen = None \<longrightarrow> len = \<infinity>"
    and "\<forall>c. chosen = Some c \<longrightarrow> len = enat (dom_size st c) \<and> unassigned asg c"
  shows "\<exists>len' chosen' lg'.
           select_loop cw asg st vs (len, chosen, lg) = Inr (len', chosen', lg') \<and>
           len' \<le> len \<and>
           (\<forall>i \<in> set vs. unassigned asg i \<longrightarrow> len' \<le> enat (dom_size st i)) \<and>
           (chosen' = None \<longrightarrow> len' = \<infinity>) \<and>
           (\<forall>c. chosen' = Some c \<longrightarrow>
              len' = enat (dom_size st c) \<and> unassigned asg c \<and> (chosen = Some c \<or> c \<in> set vs))"
  using assms
proof (induction vs arbitrary: len chosen lg)
  case Nil
  then show ?case by simp
next
  case (Cons i rest)
  from Cons.prems(1) obtain d where d: "st i = Some d" by auto
  then have size: "dom_size st i = length d" by (simp add: dom_size_def)
  from Cons.prems(1) have rest: "\<forall>i \<in> set rest. st i \<noteq> None" by simp
  show ?case
  proof (cases "unassigned asg i")
    case False
    then have step: "select_loop cw asg st (i # rest) (len, chosen, lg) =
        select_loop cw asg st rest (len, chosen, lg)"
      by (simp add: unassigned_def)
    from Cons.IH [OF rest Cons.prems(2,3), of lg] False show ?thesis
      unfolding step by auto
  next
    case True
    show ?thesis
    proof (cases "enat (length d) < len")
      case less: True
      with True d have step: "select_loop cw asg st (i # rest) (len, chosen, lg) =
          select_loop cw asg st rest (enat (length d), Some i, length (neighbors cw i))"
        by (auto simp: unassigned_def dom_get_def)
      have "\<forall>c. Some i = Some c \<longrightarrow> enat (length d) = enat (dom_size st c) \<and> unassigned asg c"
        using True size by simp
      from Cons.IH [OF rest _ this, of "length (neighbors cw i)"] obtain len' chosen' lg' where
        r: "select_loop cw asg st rest (enat (length d), Some i, length (neighbors cw i)) =
              Inr (len', chosen', lg')"
        "len' \<le> enat (length d)"
        "\<forall>j \<in> set rest. unassigned asg j \<longrightarrow> len' \<le> enat (dom_size st j)"
        "chosen' = None \<longrightarrow> len' = \<infinity>"
        "\<forall>c. chosen' = Some c \<longrightarrow>
           len' = enat (dom_size st c) \<and> unassigned asg c \<and> (Some i = Some c \<or> c \<in> set rest)"
        by auto
      from r(2) less have "len' \<le> len" by simp
      with r size show ?thesis unfolding step by auto
    next
      case notless: False
      show ?thesis
      proof (cases "enat (length d) = len \<and> lg < length (neighbors cw i)")
        case tie: True
        with True d have step: "select_loop cw asg st (i # rest) (len, chosen, lg) =
            select_loop cw asg st rest (len, Some i, lg)"
          by (auto simp: unassigned_def dom_get_def)
        have "\<forall>c. Some i = Some c \<longrightarrow> len = enat (dom_size st c) \<and> unassigned asg c"
          using True size tie by simp
        from Cons.IH [OF rest _ this, of lg] obtain len' chosen' lg' where
          r: "select_loop cw asg st rest (len, Some i, lg) = Inr (len', chosen', lg')"
          "len' \<le> len"
          "\<forall>j \<in> set rest. unassigned asg j \<longrightarrow> len' \<le> enat (dom_size st j)"
          "chosen' = None \<longrightarrow> len' = \<infinity>"
          "\<forall>c. chosen' = Some c \<longrightarrow>
             len' = enat (dom_size st c) \<and> unassigned asg c \<and> (Some i = Some c \<or> c \<in> set rest)"
          by auto
        from r(2) tie size have "len' \<le> enat (dom_size st i)" by simp
        with r show ?thesis unfolding step by auto
      next
        case keep: False
        with True d notless have step: "select_loop cw asg st (i # rest) (len, chosen, lg) =
            select_loop cw asg st rest (len, chosen, lg)"
          by (auto simp: unassigned_def dom_get_def)
        from Cons.IH [OF rest Cons.prems(2,3), of lg] obtain len' chosen' lg' where
          r: "select_loop cw asg st rest (len, chosen, lg) = Inr (len', chosen', lg')"
          "len' \<le> len"
          "\<forall>j \<in> set rest. unassigned asg j \<longrightarrow> len' \<le> enat (dom_size st j)"
          "chosen' = None \<longrightarrow> len' = \<infinity>"
          "\<forall>c. chosen' = Some c \<longrightarrow>
             len' = enat (dom_size st c) \<and> unassigned asg c \<and> (chosen = Some c \<or> c \<in> set rest)"
          by auto
        from notless have "len \<le> enat (length d)" by simp
        with r(2) size have "len' \<le> enat (dom_size st i)" by simp
        with r show ?thesis unfolding step by auto
      qed
    qed
  qed
qed

lemma select_unassigned_variable_minimal:
  assumes keys: "\<forall>i \<in> set (variables cw). st i \<noteq> None"
    and some: "\<exists>i \<in> set (variables cw). unassigned asg i"
  shows "\<exists>c. select_unassigned_variable cw asg st = Inr (Some c) \<and> c \<in> set (variables cw) \<and>
           unassigned asg c \<and>
           (\<forall>i \<in> set (variables cw). unassigned asg i \<longrightarrow> dom_size st c \<le> dom_size st i)"
proof -
  from select_loop_minimal [OF keys, of None \<infinity> asg cw 0] obtain len' chosen' lg' where
    r: "select_loop cw asg st (variables cw) (\<infinity>, None, 0) = Inr (len', chosen', lg')"
    "\<forall>i \<in> set (variables cw). unassigned asg i \<longrightarrow> len' \<le> enat (dom_size st i)"
    "chosen' = None \<longrightarrow> len' = \<infinity>"
    "\<forall>c. chosen' = Some c \<longrightarrow>
       len' = enat (dom_size st c) \<and> unassigned asg c \<and> (None = Some c \<or> c \<in> set (variables cw))"
    by auto
  from some r(2) obtain i where "len' \<le> enat (dom_size st i)" by blast
  then have "len' \<noteq> \<infinity>" by (cases len') auto
  with r(3) obtain c where c: "chosen' = Some c" by auto
  with r(4) have "len' = enat (dom_size st c)" "unassigned asg c" "c \<in> set (variables cw)"
    by auto
  with r(1,2) c show ?thesis
    by (auto simp: select_unassigned_variable_def)
qed

subsection \<open>A slot without candidates\<close>

lemma snapshot_total:
  "\<forall>i \<in> set ns. st i \<noteq> None \<Longrightarrow> \<exists>original'. snapshot st ns original = Inr original'"
  by (induction ns arbitrary: original) (auto simp: dom_get_def)

lemma restore_total:
  "\<forall>i \<in> set ns. original i \<noteq> None \<Longrightarrow> \<exists>st'. restore original ns st = Inr st'"
  by (induction ns arbitrary: st) (auto simp: dom_get_def)

lemma order_domain_values_empty:
  assumes var: "st var = Some []" and keys: "\<forall>i \<in> set (neighbors cw var). st i \<noteq> None"
  shows "order_domain_values cw var asg st = Inr ([], st)"
proof -
  from snapshot_total [OF keys] obtain original where
    snap: "snapshot st (neighbors cw var) Map.empty = Inr original" by blast
  from snapshot_result [OF snap] keys have "\<forall>i \<in> set (neighbors cw var). original i \<noteq> None"
    by simp
  from restore_total [OF this] obtain st2 where
    rest: "restore original (neighbors cw var) st = Inr st2" by blast
  from var snap rest have run: "order_domain_values cw var asg st = Inr ([], st2(var \<mapsto> []))"
    by (simp add: order_domain_values_def dom_get_def)
  from order_domain_values_frame [OF run] run show ?thesis by simp
qed

lemma backtrack_empty_domain:
  assumes keys: "\<forall>i \<in> set (variables cw). st i \<noteq> None"
    and v: "v \<in> set (variables cw)" and empty: "st v = Some []"
  shows "backtrack (Suc k) cw [] st = Inr (RNone, st, [Called []])"
proof -
  from v have incomplete: "\<not> assignment_complete cw []"
    by (auto simp: assignment_complete_def)
  from v have "\<exists>i \<in> set (variables cw). unassigned [] i"
    by (auto simp: unassigned_def)
  from select_unassigned_variable_minimal [OF keys this] obtain c where
    sel: "select_unassigned_variable cw [] st = Inr (Some c)"
    and c: "c \<in> set (variables cw)"
    and least: "\<forall>i \<in> set (variables cw). unassigned [] i \<longrightarrow> dom_size st c \<le> dom_size st i"
    by blast
  from empty have "dom_size st v = 0" by (simp add: dom_size_def)
  with least v have "dom_size st c = 0" by (auto simp: unassigned_def)
  with keys c have cempty: "st c = Some []" by (auto simp: dom_size_def split: option.splits)
  from keys have "\<forall>i \<in> set (neighbors cw c). st i \<noteq> None" by (simp add: neighbors_def)
  from order_domain_values_empty [OF cempty this]
  have "order_domain_values cw c [] st = Inr ([], st)" .
  with incomplete sel show ?thesis by simp
qed

text \<open>
  Claim C9, amended. In a well-formed puzzle, if the vocabulary has no word of the
  length of some slot, then after node consistency the domain of that slot is empty and
  \<open>solve\<close> returns \<open>None\<close>. The search is entered: \<open>backtrack\<close> is invoked once, on the
  empty assignment, and returns without trying any candidate.
\<close>

theorem solve_without_candidates:
  assumes "well_formed cw" and "v \<in> set (variables cw)"
    and "\<forall>w \<in> set (words cw). length w \<noteq> var_length v" and "0 < limit"
  shows "enforce_node_consistency (init_domains cw) v = Some [] \<and>
         (\<exists>st'. generate limit cw = Inr (RNone, st', [Called []]))"
proof -
  let ?st1 = "enforce_node_consistency (init_domains cw)"
  from assms(2,3) have v1: "?st1 v = Some []"
    by (simp add: enforce_node_consistency_def init_domains_def)
  from assms(1) have "distinct (map fst (overlaps cw))" by (simp add: well_formed_def)
  from ac3_loop_total [OF assms(1) enforce_node_consistency_init proper_arcs_all [OF this], of False]
  obtain ok st2 where
    run: "ac3_loop cw False (all_arcs cw) ?st1 = Inr (ok, st2)"
    and nc: "node_consistent cw st2" and le: "\<forall>u. dom_size st2 u \<le> dom_size ?st1 u"
    by blast
  from nc have keys: "\<forall>i \<in> set (variables cw). st2 i \<noteq> None"
    by (auto simp: node_consistent_def split: option.splits)
  from v1 have "dom_size ?st1 v = 0" by (simp add: dom_size_def)
  with le have "dom_size st2 v \<le> 0" by metis
  then have "dom_size st2 v = 0" by simp
  with keys assms(2) have v2: "st2 v = Some []" by (auto simp: dom_size_def split: option.splits)
  from assms(4) obtain k where k: "limit = Suc k" by (cases limit) auto
  from backtrack_empty_domain [OF keys assms(2) v2, of k] run k
  have "generate limit cw = Inr (RNone, st2, [Called []])"
    by (simp add: generate_def solve_def ac3_def)
  with v1 show ?thesis by blast
qed

lemma gap_well_formed: "well_formed gap"
  by code_simp

theorem solve_without_candidates_witness:
  "enforce_node_consistency (init_domains gap) (slot 2 0 ACROSS 6) = Some [] \<and>
   (\<exists>st'. generate 10 gap = Inr (RNone, st', [Called []]))"
proof -
  have v: "slot 2 0 ACROSS 6 \<in> set (variables gap)" by code_simp
  have none: "\<forall>w \<in> set (words gap). length w \<noteq> var_length (slot 2 0 ACROSS 6)" by code_simp
  have "(0::nat) < 10" by simp
  from solve_without_candidates [OF gap_well_formed v none this] show ?thesis .
qed

text \<open>
  The claim as it was stated has \<open>solve\<close> return without entering the search. On the
  ring with a vocabulary that lacks the words of length 6 the search is entered: its
  record holds the invocation of \<open>backtrack\<close> on the empty assignment.
\<close>

theorem solve_gap_enters_search:
  "enforce_node_consistency (init_domains gap) (slot 2 0 ACROSS 6) = Some [] \<and>
   outcome_result (generate 10 gap) = Some RNone \<and>
   outcome_trace (generate 10 gap) = [Called []]"
  by code_simp

subsection \<open>Search after an emptied domain\<close>

lemma try_values_False_origin:
  "try_values k cw var asg1 ws st = Inr (RFalse, st', tr) \<Longrightarrow>
     \<exists>w \<in> set ws. \<exists>pre.
       tr = pre @ [Tried var w, Emptied var w] \<and>
       consistent cw (AList.update var w asg1) = Inr True \<and>
       ac3 cw (Some (map (\<lambda>i. (i, var)) (neighbors cw var))) False (st(var \<mapsto> [w])) = Inr (False, st')"
proof (induction ws arbitrary: st' tr)
  case Nil
  then show ?case by simp
next
  case (Cons w rest)
  let ?asg = "AList.update var w asg1"
  let ?arcs = "map (\<lambda>i. (i, var)) (neighbors cw var)"
  from Cons.prems obtain ok where ok: "consistent cw ?asg = Inr ok"
    by (auto split: sum.splits)
  have continue: ?case
    if "try_values k cw var asg1 rest st = Inr (RFalse, st', tr')" "tr = pre0 @ tr'" for tr' pre0
  proof -
    from Cons.IH [OF that(1)] obtain u pre where
      u: "u \<in> set rest" "tr' = pre @ [Tried var u, Emptied var u]"
      "consistent cw (AList.update var u asg1) = Inr True"
      "ac3 cw (Some ?arcs) False (st(var \<mapsto> [u])) = Inr (False, st')"
      by blast
    from u(2) that(2) have "tr = (pre0 @ pre) @ [Tried var u, Emptied var u]" by simp
    moreover from u(1) have "u \<in> set (w # rest)" by simp
    ultimately show ?thesis using u(3,4) by blast
  qed
  show ?case
  proof (cases ok)
    case False
    with Cons.prems ok obtain tr' where
      "try_values k cw var asg1 rest st = Inr (RFalse, st', tr')" "tr = [Tried var w] @ tr'"
      by (auto split: sum.splits)
    then show ?thesis by (rule continue)
  next
    case True
    from Cons.prems ok True obtain ok' st1 where
      pr: "ac3 cw (Some ?arcs) False (st(var \<mapsto> [w])) = Inr (ok', st1)"
      by (auto split: sum.splits)
    show ?thesis
    proof (cases ok')
      case False
      with Cons.prems ok True pr have "st' = st1" "tr = [] @ [Tried var w, Emptied var w]"
        by simp_all
      moreover have "w \<in> set (w # rest)" by simp
      moreover from ok True have "consistent cw ?asg = Inr True" by simp
      moreover from pr False have "ac3 cw (Some ?arcs) False (st(var \<mapsto> [w])) = Inr (False, st1)"
        by simp
      ultimately show ?thesis by blast
    next
      case ok': True
      from Cons.prems ok True pr ok' obtain r st2 tr2 where
        rec: "backtrack k cw ?asg st1 = Inr (r, st2, tr2)"
        by (auto split: sum.splits)
      from Cons.prems ok True pr ok' rec have "\<not> truthy r"
        by (auto split: if_splits)
      with Cons.prems ok True pr ok' rec obtain tr' where
        "try_values k cw var asg1 rest st = Inr (RFalse, st', tr')"
        "tr = (Tried var w # tr2) @ tr'"
        by (auto split: sum.splits)
      then show ?thesis by (rule continue)
    qed
  qed
qed

lemma backtrack_False_origin:
  assumes "backtrack k cw asg st = Inr (RFalse, st', tr)"
  shows "\<exists>v u pre. tr = pre @ [Tried v u, Emptied v u]"
proof (cases k)
  case 0
  with assms show ?thesis by simp
next
  case (Suc k')
  with assms obtain var cands st1 tr0 where
    loop: "try_values k' cw var asg cands st1 = Inr (RFalse, st', tr0)"
    and tr: "tr = Called asg # tr0"
    by (auto split: if_splits sum.splits option.splits)
  from try_values_False_origin [OF loop] obtain u pre where
    "tr0 = pre @ [Tried var u, Emptied var u]" by blast
  with tr have "tr = (Called asg # pre) @ [Tried var u, Emptied var u]" by simp
  then show ?thesis by blast
qed

lemma ladder_store_ANA_propagated:
  "ac3 ladder (Some (map (\<lambda>i. (i, slot 0 0 ACROSS 3)) (neighbors ladder (slot 0 0 ACROSS 3)))) False
     (ladder_store(slot 0 0 ACROSS 3 \<mapsto> [''ANA''])) = Inr (True, ladder_store_ANA)"
proof -
  let ?run = "ac3 ladder (Some (map (\<lambda>i. (i, slot 0 0 ACROSS 3)) (neighbors ladder (slot 0 0 ACROSS 3)))) False
     (ladder_store(slot 0 0 ACROSS 3 \<mapsto> [''ANA'']))"
  have "case ?run of Inl e \<Rightarrow> False | Inr (ok, st) \<Rightarrow> ok" by code_simp
  then show ?thesis
    unfolding ladder_store_ANA_def by (cases ?run) auto
qed

lemma try_values_given_up:
  "try_values k cw var asg1 pre st = Inr (RNone, st', tr) \<Longrightarrow>
     st' = st \<and>
     try_values k cw var asg1 (pre @ ws) st =
       (case try_values k cw var asg1 ws st of
          Inl e \<Rightarrow> Inl e
        | Inr (r, s, t) \<Rightarrow> Inr (r, s, tr @ t))"
proof (induction pre arbitrary: st' tr)
  case Nil
  then show ?case by (auto split: sum.splits)
next
  case (Cons w pre)
  let ?asg = "AList.update var w asg1"
  from Cons.prems obtain ok where ok: "consistent cw ?asg = Inr ok"
    by (auto split: sum.splits)
  show ?case
  proof (cases ok)
    case False
    with Cons.prems ok obtain tr' where
      rest: "try_values k cw var asg1 pre st = Inr (RNone, st', tr')" and tr: "tr = Tried var w # tr'"
      by (auto split: sum.splits)
    from Cons.IH [OF rest] have "st' = st"
      and app: "try_values k cw var asg1 (pre @ ws) st =
        (case try_values k cw var asg1 ws st of
           Inl e \<Rightarrow> Inl e
         | Inr (r, s, t) \<Rightarrow> Inr (r, s, tr' @ t))"
      by simp_all
    with ok False tr show ?thesis by (simp split: sum.splits)
  next
    case True
    from Cons.prems ok True obtain ok' st1 where
      pr: "propagate cw var w st = Inr (ok', st1)"
      by (auto split: sum.splits)
    from Cons.prems ok True pr have ok': "ok'" by (auto split: if_splits)
    from Cons.prems ok True pr ok' obtain r st2 tr2 where
      rec: "backtrack k cw ?asg st1 = Inr (r, st2, tr2)"
      by (auto split: sum.splits)
    from Cons.prems ok True pr ok' rec have falsy: "\<not> truthy r"
      by (auto split: if_splits)
    with Cons.prems ok True pr ok' rec obtain tr' where
      rest: "try_values k cw var asg1 pre st = Inr (RNone, st', tr')"
      and tr: "tr = Tried var w # tr2 @ tr'"
      by (auto split: sum.splits)
    from Cons.IH [OF rest] have "st' = st"
      and app: "try_values k cw var asg1 (pre @ ws) st =
        (case try_values k cw var asg1 ws st of
           Inl e \<Rightarrow> Inl e
         | Inr (r, s, t) \<Rightarrow> Inr (r, s, tr' @ t))"
      by simp_all
    with ok True pr ok' rec falsy tr show ?thesis by (simp split: sum.splits)
  qed
qed

lemma backtrack_reaches:
  assumes "reaches k cw asg st var pre w rest tr"
  shows "backtrack (Suc k) cw asg st =
           (case try_values k cw var asg (w # rest) st of
              Inl e \<Rightarrow> Inl e
            | Inr (r, s, t) \<Rightarrow> Inr (r, s, Called asg # tr @ t))"
proof -
  from assms have incomplete: "\<not> assignment_complete cw asg"
    and sel: "select_unassigned_variable cw asg st = Inr (Some var)"
    and cand: "candidates cw var asg st = Some (pre @ w # rest)"
    and res: "outcome_result (try_values k cw var asg pre st) = Some RNone"
    and tr: "outcome_trace (try_values k cw var asg pre st) = tr"
    by (simp_all add: reaches_def)
  from cand obtain st1 where ord: "order_domain_values cw var asg st = Inr (pre @ w # rest, st1)"
    by (auto simp: candidates_def split: sum.splits)
  from order_domain_values_frame [OF ord] have st1: "st1 = st" .
  from res tr obtain st' where "try_values k cw var asg pre st = Inr (RNone, st', tr)"
    by (auto simp: outcome_result_def outcome_trace_def split: sum.splits)
  from try_values_given_up [OF this, of "w # rest"]
  have "try_values k cw var asg (pre @ w # rest) st =
      (case try_values k cw var asg (w # rest) st of
         Inl e \<Rightarrow> Inl e
       | Inr (r, s, t) \<Rightarrow> Inr (r, s, tr @ t))"
    by simp
  with incomplete sel ord st1 show ?thesis
    by (simp del: try_values.simps split: sum.splits)
qed

lemma backtrack_emptied:
  assumes "reaches k cw asg st var pre w rest tr" and "propagate cw var w st = Inr (False, st')"
  shows "backtrack (Suc k) cw asg st =
           Inr (RFalse, st', Called asg # tr @ [Tried var w, Emptied var w])"
proof -
  from assms(1) have "consistent cw (AList.update var w asg) = Inr True"
    by (simp add: reaches_def)
  with assms(2) have "try_values k cw var asg (w # rest) st =
      Inr (RFalse, st', [Tried var w, Emptied var w])"
    by simp
  with backtrack_reaches [OF assms(1)] show ?thesis by (simp del: try_values.simps)
qed

text \<open>
  Claim C2, amended. In backtracking search, if the arc-consistency propagation run
  after a tentative assignment empties some domain, the invocation of \<open>backtrack\<close> in
  which this happens returns \<open>False\<close> at once, without trying the remaining candidates of
  its variable. If that invocation is the outermost one, the whole search halts there
  and \<open>solve\<close> returns \<open>False\<close>, whatever candidates are left. If it is a nested
  invocation, the search does not halt: the invocation that called it takes the \<open>False\<close>
  for a failed candidate and goes on with its own remaining candidates, from the store
  and the assignment it had before that candidate.
\<close>

theorem propagation_failure_ends_one_invocation:
  assumes "reaches k cw asg st var pre w rest tr" and "propagate cw var w st = Inr (False, st')"
  shows "backtrack (Suc k) cw asg st =
           Inr (RFalse, st', Called asg # tr @ [Tried var w, Emptied var w]) \<and>
         (\<forall>st0 b. asg = [] \<and> ac3 cw None False (enforce_node_consistency st0) = Inr (b, st) \<longrightarrow>
            solve (Suc k) cw st0 =
              Inr (RFalse, st', Called [] # tr @ [Tried var w, Emptied var w])) \<and>
         (\<forall>asg0 st0 var0 pre0 w0 rest0 tr0.
            reaches (Suc k) cw asg0 st0 var0 pre0 w0 rest0 tr0 \<and>
            propagate cw var0 w0 st0 = Inr (True, st) \<and> asg = AList.update var0 w0 asg0 \<longrightarrow>
            backtrack (Suc (Suc k)) cw asg0 st0 =
              (case try_values (Suc k) cw var0 asg0 rest0 st0 of
                 Inl e \<Rightarrow> Inl e
               | Inr (r, s, t) \<Rightarrow>
                  Inr (r, s,
                    Called asg0 # tr0 @
                    Tried var0 w0 # (Called asg # tr @ [Tried var w, Emptied var w]) @ t)))"
proof (intro conjI allI impI)
  note own = backtrack_emptied [OF assms]
  show "backtrack (Suc k) cw asg st =
      Inr (RFalse, st', Called asg # tr @ [Tried var w, Emptied var w])"
    by (rule own)
  show "solve (Suc k) cw st0 = Inr (RFalse, st', Called [] # tr @ [Tried var w, Emptied var w])"
    if "asg = [] \<and> ac3 cw None False (enforce_node_consistency st0) = Inr (b, st)" for st0 b
    using that own by (simp add: solve_def del: backtrack.simps)
  show "backtrack (Suc (Suc k)) cw asg0 st0 =
      (case try_values (Suc k) cw var0 asg0 rest0 st0 of
         Inl e \<Rightarrow> Inl e
       | Inr (r, s, t) \<Rightarrow>
          Inr (r, s,
            Called asg0 # tr0 @ Tried var0 w0 # (Called asg # tr @ [Tried var w, Emptied var w]) @ t))"
    if outer: "reaches (Suc k) cw asg0 st0 var0 pre0 w0 rest0 tr0 \<and>
      propagate cw var0 w0 st0 = Inr (True, st) \<and> asg = AList.update var0 w0 asg0"
    for asg0 st0 var0 pre0 w0 rest0 tr0
  proof -
    from outer have r: "reaches (Suc k) cw asg0 st0 var0 pre0 w0 rest0 tr0"
      and p: "propagate cw var0 w0 st0 = Inr (True, st)"
      and a: "AList.update var0 w0 asg0 = asg" by simp_all
    from r have c: "consistent cw (AList.update var0 w0 asg0) = Inr True"
      by (simp add: reaches_def)
    have "try_values (Suc k) cw var0 asg0 (w0 # rest0) st0 =
        (case try_values (Suc k) cw var0 asg0 rest0 st0 of
           Inl e \<Rightarrow> Inl e
         | Inr (r, s, t) \<Rightarrow>
            Inr (r, s, Tried var0 w0 # (Called asg # tr @ [Tried var w, Emptied var w]) @ t))"
      using c p a own by (simp del: backtrack.simps split: sum.splits)
    with backtrack_reaches [OF r] show ?thesis
      by (simp del: try_values.simps backtrack.simps split: sum.splits)
  qed
qed

lemma ring2_store_propagated:
  "\<exists>b. ac3 ring2 None False (enforce_node_consistency (init_domains ring2)) = Inr (b, ring2_store)"
proof -
  let ?run = "ac3 ring2 None False (enforce_node_consistency (init_domains ring2))"
  have "\<not> isl ?run" by code_simp
  then show ?thesis
    unfolding ring2_store_def by (cases ?run) auto
qed

theorem propagation_failure_ends_one_invocation_witness:
  "(\<exists>st'. generate 10 ring2 =
      Inr (RFalse, st',
        [Called [], Tried (slot 0 0 ACROSS 3) ''ATA'', Emptied (slot 0 0 ACROSS 3) ''ATA''])) \<and>
   candidates ring2 (slot 0 0 ACROSS 3) [] ring2_store = Some [''ATA'', ''BTA''] \<and>
   satisfying ring2 ring2_solution \<and>
   backtrack 10 ladder [] ladder_store =
     (case try_values 9 ladder (slot 0 0 ACROSS 3) [] [''BRA''] ladder_store of
        Inl e \<Rightarrow> Inl e
      | Inr (r, s, t) \<Rightarrow>
         Inr (r, s,
           [Called [], Tried (slot 0 0 ACROSS 3) ''ANA'', Called [(slot 0 0 ACROSS 3, ''ANA'')],
            Tried (slot 0 0 DOWN 6) ''AXSXTX'', Emptied (slot 0 0 DOWN 6) ''AXSXTX''] @ t))"
proof -
  let ?A = "slot 0 0 ACROSS 3" and ?D = "slot 0 0 DOWN 6"
  have top: "reaches 9 ring2 [] ring2_store ?A [] ''ATA'' [''BTA''] []" by code_simp
  have "case propagate ring2 ?A ''ATA'' ring2_store of Inl e \<Rightarrow> False | Inr (ok, st) \<Rightarrow> \<not> ok"
    by code_simp
  then obtain st2 where fail2: "propagate ring2 ?A ''ATA'' ring2_store = Inr (False, st2)"
    by (cases "propagate ring2 ?A ''ATA'' ring2_store") auto
  from ring2_store_propagated obtain b where
    start: "ac3 ring2 None False (enforce_node_consistency (init_domains ring2)) = Inr (b, ring2_store)" ..
  from propagation_failure_ends_one_invocation [OF top fail2] start
  have "solve (Suc 9) ring2 (init_domains ring2) =
      Inr (RFalse, st2, Called [] # [] @ [Tried ?A ''ATA'', Emptied ?A ''ATA''])"
    by blast
  then have one: "\<exists>st'. generate 10 ring2 = Inr (RFalse, st', [Called [], Tried ?A ''ATA'', Emptied ?A ''ATA''])"
    by (simp add: generate_def del: backtrack.simps)
  have two: "candidates ring2 ?A [] ring2_store = Some [''ATA'', ''BTA'']" by code_simp
  have three: "satisfying ring2 ring2_solution" by code_simp
  have inner: "reaches 8 ladder [(?A, ''ANA'')] ladder_store_ANA ?D [] ''AXSXTX'' [] []" by code_simp
  have "case propagate ladder ?D ''AXSXTX'' ladder_store_ANA of Inl e \<Rightarrow> False | Inr (ok, st) \<Rightarrow> \<not> ok"
    by code_simp
  then obtain st3 where fail3: "propagate ladder ?D ''AXSXTX'' ladder_store_ANA = Inr (False, st3)"
    by (cases "propagate ladder ?D ''AXSXTX'' ladder_store_ANA") auto
  have outer: "reaches (Suc 8) ladder [] ladder_store ?A [] ''ANA'' [''BRA''] []" by code_simp
  have upd: "[(?A, ''ANA'')] = AList.update ?A ''ANA'' []" by simp
  from propagation_failure_ends_one_invocation [OF inner fail3] outer ladder_store_ANA_propagated upd
  have "backtrack (Suc (Suc 8)) ladder [] ladder_store =
      (case try_values (Suc 8) ladder ?A [] [''BRA''] ladder_store of
         Inl e \<Rightarrow> Inl e
       | Inr (r, s, t) \<Rightarrow>
          Inr (r, s,
            Called [] # [] @ Tried ?A ''ANA'' #
              (Called [(?A, ''ANA'')] # [] @ [Tried ?D ''AXSXTX'', Emptied ?D ''AXSXTX'']) @ t))"
    by blast
  then have four: "backtrack 10 ladder [] ladder_store =
     (case try_values 9 ladder ?A [] [''BRA''] ladder_store of
        Inl e \<Rightarrow> Inl e
      | Inr (r, s, t) \<Rightarrow>
         Inr (r, s,
           [Called [], Tried ?A ''ANA'', Called [(?A, ''ANA'')],
            Tried ?D ''AXSXTX'', Emptied ?D ''AXSXTX''] @ t))"
    by (simp del: backtrack.simps try_values.simps split: sum.splits)
  from one two three four show ?thesis by blast
qed

text \<open>
  The claim as it was stated has the whole search halt, with no candidate of an
  ancestor tried afterwards. On the ladder the propagation after the second tentative
  assignment empties a domain; the outermost invocation then tries its next candidate
  and the search ends with a complete assignment.
\<close>

theorem search_continues_after_emptied_domain:
  "outcome_result (generate 10 ladder) = Some (RAssignment ladder_solution) \<and>
   take 6 (outcome_trace (generate 10 ladder)) =
     [Called [],
      Tried (slot 0 0 ACROSS 3) ''ANA'',
      Called [(slot 0 0 ACROSS 3, ''ANA'')],
      Tried (slot 0 0 DOWN 6) ''AXSXTX'',
      Emptied (slot 0 0 DOWN 6) ''AXSXTX'',
      Tried (slot 0 0 ACROSS 3) ''BRA'']"
  by code_simp

subsection \<open>The failure signal of the search\<close>

lemma fits_overlap:
  assumes "fits cw asg" and "(v, w) \<in> set asg" and "w \<noteq> []"
    and "u \<in> set (neighbors cw v)" and "map_of asg u = Some w'" and "w' \<noteq> []"
    and "map_of (overlaps cw) (u, v) = Some (Some (m, n))"
  shows "compatible w' m w n"
proof -
  from assms(1) have "\<forall>(v, w) \<in> set asg. \<forall>u \<in> set (neighbors cw v). \<forall>w'.
        w \<noteq> [] \<longrightarrow> map_of asg u = Some w' \<longrightarrow> w' \<noteq> [] \<longrightarrow>
        (\<exists>m n. map_of (overlaps cw) (u, v) = Some (Some (m, n)) \<and> compatible w' m w n)"
    by (simp add: fits_def)
  with assms(2) have "\<forall>u \<in> set (neighbors cw v). \<forall>w'.
        w \<noteq> [] \<longrightarrow> map_of asg u = Some w' \<longrightarrow> w' \<noteq> [] \<longrightarrow>
        (\<exists>m n. map_of (overlaps cw) (u, v) = Some (Some (m, n)) \<and> compatible w' m w n)"
    by blast
  with assms(3-6) obtain m' n' where
    "map_of (overlaps cw) (u, v) = Some (Some (m', n'))" "compatible w' m' w n'" by blast
  with assms(7) show ?thesis by simp
qed

lemma fits_length:
  assumes "fits cw asg" and "(v, w) \<in> set asg" and "w \<noteq> []"
  shows "length w = var_length v"
proof -
  from assms(1) have "\<forall>(v, w) \<in> set asg. w \<noteq> [] \<longrightarrow> length w = var_length v"
    by (simp add: fits_def)
  with assms(2,3) show ?thesis by blast
qed

lemma ring_words_by_length:
  assumes "w \<in> set (words ring)"
  shows "(length w = 3 \<longrightarrow> w = ''ATA'' \<or> w = ''BTB'') \<and>
         (length w = 4 \<longrightarrow> w = ''AIBI'' \<or> w = ''BIAI'') \<and>
         (length w = 5 \<longrightarrow> w = ''AEAEE'' \<or> w = ''BEBEE'') \<and>
         (length w = 6 \<longrightarrow> w = ''AOAOOO'' \<or> w = ''BOBOOO'')"
proof -
  from assms have "w \<in> {''ATA'', ''BTB'', ''AIBI'', ''BIAI'', ''AEAEE'', ''BEBEE'', ''AOAOOO'', ''BOBOOO''}"
    by (simp add: ring_def)
  then show ?thesis by (elim insertE emptyE) simp_all
qed

lemma ring_conflict:
  assumes "a = ''ATA'' \<or> a = ''BTB''" and "d1 = ''AIBI'' \<or> d1 = ''BIAI''"
    and "d2 = ''AEAEE'' \<or> d2 = ''BEBEE''" and "a2 = ''AOAOOO'' \<or> a2 = ''BOBOOO''"
    and "compatible a 0 d1 0" and "compatible a 2 d2 0"
    and "compatible a2 0 d1 2" and "compatible a2 2 d2 2"
  shows False
proof -
  from assms(1,2,5) have one: "(a = ''ATA'' \<and> d1 = ''AIBI'') \<or> (a = ''BTB'' \<and> d1 = ''BIAI'')"
    by (auto simp: compatible_def)
  from assms(1,3,6) have two: "(a = ''ATA'' \<and> d2 = ''AEAEE'') \<or> (a = ''BTB'' \<and> d2 = ''BEBEE'')"
    by (auto simp: compatible_def)
  from assms(2,4,7) have three: "(a2 = ''BOBOOO'' \<and> d1 = ''AIBI'') \<or> (a2 = ''AOAOOO'' \<and> d1 = ''BIAI'')"
    by (auto simp: compatible_def)
  from assms(3,4,8) have four: "(a2 = ''AOAOOO'' \<and> d2 = ''AEAEE'') \<or> (a2 = ''BOBOOO'' \<and> d2 = ''BEBEE'')"
    by (auto simp: compatible_def)
  from one two three four show False by auto
qed

lemma ring_unsatisfiable:
  "\<not> (\<exists>asg. satisfying ring asg \<and> set (map snd asg) \<subseteq> set (words ring))"
proof
  assume "\<exists>asg. satisfying ring asg \<and> set (map snd asg) \<subseteq> set (words ring)"
  then obtain asg where sat: "satisfying ring asg"
    and vocabulary: "set (map snd asg) \<subseteq> set (words ring)" by blast
  define A1 where "A1 = slot 0 0 ACROSS 3"
  define D1 where "D1 = slot 0 0 DOWN 4"
  define D2 where "D2 = slot 0 2 DOWN 5"
  define A2 where "A2 = slot 2 0 ACROSS 6"
  note names = A1_def D1_def D2_def A2_def
  from sat have keys: "distinct (map fst asg)" "set (map fst asg) \<subseteq> set (variables ring)"
    and complete: "assignment_complete ring asg" and cons: "consistent ring asg = Inr True"
    by (simp_all add: satisfying_def)
  have vars: "variables ring = [A1, D1, D2, A2]"
    by (simp add: ring_def ring_vars_def names)
  have "distinct (variables ring)" by code_simp
  from complete_keys [OF complete keys this] vars
  have all: "fst ` set asg = {A1, D1, D2, A2}" by simp
  from all have "A1 \<in> fst ` set asg" by simp
  then obtain a where ma: "(A1, a) \<in> set asg" by force
  from all have "D1 \<in> fst ` set asg" by simp
  then obtain d1 where md1: "(D1, d1) \<in> set asg" by force
  from all have "D2 \<in> fst ` set asg" by simp
  then obtain d2 where md2: "(D2, d2) \<in> set asg" by force
  from all have "A2 \<in> fst ` set asg" by simp
  then obtain a2 where ma2: "(A2, a2) \<in> set asg" by force
  note ne = complete_nonempty [OF complete]
  from ma keys(1) have la: "map_of asg A1 = Some a" by simp
  from ma2 keys(1) have la2: "map_of asg A2 = Some a2" by simp
  note fits = consistent_fits [OF cons]
  have len: "length a = 3" "length d1 = 4" "length d2 = 5" "length a2 = 6"
    using fits_length [OF fits ma ne [OF ma]] fits_length [OF fits md1 ne [OF md1]]
      fits_length [OF fits md2 ne [OF md2]] fits_length [OF fits ma2 ne [OF ma2]]
    by (simp_all add: names slot_def)
  have inw: "w \<in> set (words ring)" if "(v, w) \<in> set asg" for v w
    using that vocabulary by force
  have words:
    "a = ''ATA'' \<or> a = ''BTB''" "d1 = ''AIBI'' \<or> d1 = ''BIAI''"
    "d2 = ''AEAEE'' \<or> d2 = ''BEBEE''" "a2 = ''AOAOOO'' \<or> a2 = ''BOBOOO''"
    using ring_words_by_length [OF inw [OF ma]] ring_words_by_length [OF inw [OF md1]]
      ring_words_by_length [OF inw [OF md2]] ring_words_by_length [OF inw [OF ma2]] len
    by simp_all
  have nb: "A1 \<in> set (neighbors ring D1)" "A1 \<in> set (neighbors ring D2)"
    "A2 \<in> set (neighbors ring D1)" "A2 \<in> set (neighbors ring D2)"
    unfolding names by code_simp+
  have ov: "map_of (overlaps ring) (A1, D1) = Some (Some (0, 0))"
    "map_of (overlaps ring) (A1, D2) = Some (Some (2, 0))"
    "map_of (overlaps ring) (A2, D1) = Some (Some (0, 2))"
    "map_of (overlaps ring) (A2, D2) = Some (Some (2, 2))"
    unfolding names by code_simp+
  have "compatible a 0 d1 0"
    by (rule fits_overlap [OF fits md1 ne [OF md1] nb(1) la ne [OF ma] ov(1)])
  moreover have "compatible a 2 d2 0"
    by (rule fits_overlap [OF fits md2 ne [OF md2] nb(2) la ne [OF ma] ov(2)])
  moreover have "compatible a2 0 d1 2"
    by (rule fits_overlap [OF fits md1 ne [OF md1] nb(3) la2 ne [OF ma2] ov(3)])
  moreover have "compatible a2 2 d2 2"
    by (rule fits_overlap [OF fits md2 ne [OF md2] nb(4) la2 ne [OF ma2] ov(4)])
  ultimately show False
    using words by (intro ring_conflict [of a d1 d2 a2]) auto
qed

lemma ring_search_returns_False: "outcome_result (generate 10 ring) = Some RFalse"
  by code_simp

text \<open>
  Claim C1. For a puzzle with no satisfying assignment \<open>solve\<close> is to return \<open>None\<close>
  and no other value. The code does not: the ring has no satisfying assignment over its
  vocabulary, the propagation after the first tentative assignment empties a domain,
  and \<open>solve\<close> returns \<open>False\<close>.
\<close>

theorem solve_ring_returns_False:
  "outcome_result (generate 10 ring) = Some RFalse \<and>
   \<not> (\<exists>asg. satisfying ring asg \<and> set (map snd asg) \<subseteq> set (words ring))"
  using ring_search_returns_False ring_unsatisfiable by (rule conjI)

end
